theory Spec2Isabelle
  imports Main "HOL-Library.Monad_Syntax"
begin

section \<open>Scores: integers extended by the two infinities\<close>

text \<open>
  The searches start their running maximum at \<^verbatim>\<open>float('-inf')\<close> and their running
  minimum at \<^verbatim>\<open>float('inf')\<close>, and compare these with the integer results of
  \<^verbatim>\<open>evaluate\<close>.  A score is therefore an integer or one of the two infinities.
\<close>

datatype score = NegInf | Fin int | PosInf

instantiation score :: linorder
begin

fun less_eq_score :: "score \<Rightarrow> score \<Rightarrow> bool" where
  "less_eq_score NegInf y = True"
| "less_eq_score (Fin a) NegInf = False"
| "less_eq_score (Fin a) (Fin b) = (a \<le> b)"
| "less_eq_score (Fin a) PosInf = True"
| "less_eq_score PosInf NegInf = False"
| "less_eq_score PosInf (Fin b) = False"
| "less_eq_score PosInf PosInf = True"

definition less_score :: "score \<Rightarrow> score \<Rightarrow> bool" where
  "less_score x y = (x \<le> y \<and> \<not> y \<le> (x::score))"

instance
proof
  fix x y z :: score
  show "(x < y) = (x \<le> y \<and> \<not> y \<le> x)"
    by (simp add: less_score_def)
  show "x \<le> x"
    by (cases x) simp_all
  show "x \<le> y \<Longrightarrow> y \<le> z \<Longrightarrow> x \<le> z"
    by (cases x; cases y; cases z) simp_all
  show "x \<le> y \<Longrightarrow> y \<le> x \<Longrightarrow> x = y"
    by (cases x; cases y) simp_all
  show "x \<le> y \<or> y \<le> x"
    by (cases x; cases y) auto
qed

end

section \<open>The board (board.py)\<close>

text \<open>
  A \<^verbatim>\<open>Board\<close> object has the attributes \<^verbatim>\<open>size\<close>, \<^verbatim>\<open>board\<close> (a numpy array of
  shape \<^verbatim>\<open>(size, size)\<close> holding 0 for an empty cell and 1 for a queen) and
  \<^verbatim>\<open>queens_left\<close>.  The array is a list of rows.  \<^verbatim>\<open>np.zeros\<close> fills it with the
  float 0.0 and the code writes and compares 0 and 1 only, so a cell is an integer
  here.  \<^verbatim>\<open>size\<close> is what \<^verbatim>\<open>np.zeros\<close> accepts as a dimension, a natural number.
\<close>

record board =
  size_b :: nat
  board_b :: "int list list"
  queens_left :: int

text \<open>
  Indexing a numpy axis of length \<open>n\<close> with \<open>i\<close>: the indices \<open>0 \<le> i < n\<close> are
  taken as they are, \<open>- n \<le> i < 0\<close> counts from the end, and any other index raises
  \<^verbatim>\<open>IndexError\<close>, which is the value \<open>None\<close> here.
\<close>

definition np_index :: "nat \<Rightarrow> int \<Rightarrow> nat option" where
  "np_index n i =
     (if 0 \<le> i \<and> i < int n then Some (nat i)
      else if - int n \<le> i \<and> i < 0 then Some (nat (int n + i))
      else None)"

text \<open>\<^verbatim>\<open>self.board[r, c]\<close>\<close>

definition getitem :: "board \<Rightarrow> int \<Rightarrow> int \<Rightarrow> int option" where
  "getitem b r c =
     do {
       i \<leftarrow> np_index (length (board_b b)) r;
       j \<leftarrow> np_index (length (board_b b ! i)) c;
       Some (board_b b ! i ! j)
     }"

text \<open>\<^verbatim>\<open>self.board[r, c] = v\<close>\<close>

definition setitem :: "board \<Rightarrow> int \<Rightarrow> int \<Rightarrow> int \<Rightarrow> board option" where
  "setitem b r c v =
     do {
       i \<leftarrow> np_index (length (board_b b)) r;
       j \<leftarrow> np_index (length (board_b b ! i)) c;
       Some (b\<lparr>board_b := (board_b b)[i := (board_b b ! i)[j := v]]\<rparr>)
     }"

text \<open>\<^verbatim>\<open>range(n)\<close>\<close>

definition py_range :: "nat \<Rightarrow> int list" where
  "py_range n = map int [0..<n]"

text \<open>\<^verbatim>\<open>Board(size)\<close> and \<^verbatim>\<open>reset(size)\<close>: \<^verbatim>\<open>np.zeros((size, size))\<close>.\<close>

definition init_board :: "nat \<Rightarrow> board" where
  "init_board n = \<lparr>size_b = n, board_b = replicate n (replicate n 0), queens_left = int n\<rparr>"

definition reset :: "board \<Rightarrow> nat option \<Rightarrow> board" where
  "reset b new_size =
     (let n = (case new_size of None \<Rightarrow> size_b b | Some m \<Rightarrow> m)
      in \<lparr>size_b = n, board_b = replicate n (replicate n 0), queens_left = int n\<rparr>)"

text \<open>
  A loop that returns at the first element whose test holds:
  \<^verbatim>\<open>for x in xs: if f(x): return ...\<close>.  The result says whether the loop returned
  early; an \<^verbatim>\<open>IndexError\<close> raised by a test ends the loop with the error.
\<close>

fun any_m :: "('a \<Rightarrow> bool option) \<Rightarrow> 'a list \<Rightarrow> bool option" where
  "any_m f [] = Some False"
| "any_m f (x # xs) =
     (case f x of
        None \<Rightarrow> None
      | Some True \<Rightarrow> Some True
      | Some False \<Rightarrow> any_m f xs)"

text \<open>
  A loop that appends the elements passing a test:
  \<^verbatim>\<open>for x in xs: if f(x): out.append(x)\<close>.
\<close>

fun filter_m :: "('a \<Rightarrow> bool option) \<Rightarrow> 'a list \<Rightarrow> 'a list option" where
  "filter_m f [] = Some []"
| "filter_m f (x # xs) =
     (case f x of
        None \<Rightarrow> None
      | Some t \<Rightarrow> (case filter_m f xs of
                    None \<Rightarrow> None
                  | Some ys \<Rightarrow> Some (if t then x # ys else ys)))"

text \<open>
  \<^verbatim>\<open>Board.is_safe\<close>.  The two nested loops over \<^verbatim>\<open>range(n)\<close> of the diagonal check
  visit the pairs \<open>(i, j)\<close> in row-major order and return from both at the first hit.
\<close>

definition row_col_hit :: "board \<Rightarrow> int \<Rightarrow> int \<Rightarrow> int \<Rightarrow> bool option" where
  "row_col_hit b row col i =
     do {
       x \<leftarrow> getitem b row i;
       if x = 1 then Some True
       else do { y \<leftarrow> getitem b i col; Some (y = 1) }
     }"

definition diag_hit :: "board \<Rightarrow> int \<Rightarrow> int \<Rightarrow> int \<times> int \<Rightarrow> bool option" where
  "diag_hit b row col p =
     (case p of (i, j) \<Rightarrow>
        if i + j = row + col \<or> i - j = row - col
        then do { x \<leftarrow> getitem b i j; Some (x = 1) }
        else Some False)"

definition is_safe :: "board \<Rightarrow> int \<Rightarrow> int \<Rightarrow> bool option" where
  "is_safe b row col =
     (let n = size_b b in
      do {
        x \<leftarrow> getitem b row col;
        if x = 1 then Some False
        else do {
          h \<leftarrow> any_m (row_col_hit b row col) (py_range n);
          if h then Some False
          else do {
            d \<leftarrow> any_m (diag_hit b row col) (List.product (py_range n) (py_range n));
            Some (\<not> d)
          }
        }
      })"

text \<open>\<^verbatim>\<open>Board.place_queen\<close>: the returned flag and the board after the call.\<close>

definition place_queen :: "board \<Rightarrow> int \<Rightarrow> int \<Rightarrow> (bool \<times> board) option" where
  "place_queen b row col =
     do {
       s \<leftarrow> is_safe b row col;
       if s then do {
         b1 \<leftarrow> setitem b row col 1;
         Some (True, b1\<lparr>queens_left := queens_left b1 - 1\<rparr>)
       }
       else Some (False, b)
     }"

text \<open>The test \<^verbatim>\<open>self.board[i, j] == 0 and self.is_safe(i, j)\<close>.\<close>

definition empty_and_safe :: "board \<Rightarrow> int \<times> int \<Rightarrow> bool option" where
  "empty_and_safe b p =
     (case p of (i, j) \<Rightarrow>
        do {
          x \<leftarrow> getitem b i j;
          if x = 0 then is_safe b i j else Some False
        })"

text \<open>\<^verbatim>\<open>Board.get_safe_positions\<close> (alphabeta/board.py).\<close>

definition get_safe_positions :: "board \<Rightarrow> (int \<times> int) list option" where
  "get_safe_positions b =
     filter_m (empty_and_safe b) (List.product (py_range (size_b b)) (py_range (size_b b)))"

text \<open>\<^verbatim>\<open>Board.evaluate\<close> of alphabeta/board.py, the constructive heuristic.\<close>

definition evaluate :: "board \<Rightarrow> int option" where
  "evaluate b =
     (let n = int (size_b b);
          queens_placed = n - queens_left b
      in if queens_placed = n then Some 1000
         else do {
           sp \<leftarrow> get_safe_positions b;
           let safe_positions = int (length sp)
           in if safe_positions = 0 \<and> queens_placed < n then Some (- 1000)
              else Some (queens_placed * 10 + safe_positions)
         })"

text \<open>\<^verbatim>\<open>Board.is_game_over\<close> of alphabeta/board.py.\<close>

definition is_game_over :: "board \<Rightarrow> bool" where
  "is_game_over b = (queens_left b = 0)"


section \<open>The conflict-counting board (minimax/board.py)\<close>

text \<open>
  minimax/board.py has the same attributes, \<^verbatim>\<open>place_queen\<close> and \<^verbatim>\<open>is_safe\<close> as
  alphabeta/board.py; its \<^verbatim>\<open>evaluate\<close> and \<^verbatim>\<open>is_game_over\<close> differ.
  \<^verbatim>\<open>np.sum(a)\<close>, \<^verbatim>\<open>np.diagonal(a, k)\<close> and \<^verbatim>\<open>np.fliplr(a)\<close> on a two-dimensional array
  follow; these numpy reductions never index outside the array, so they are total.
\<close>

definition np_sum :: "int list list \<Rightarrow> int" where
  "np_sum a = sum_list (map sum_list a)"

definition np_cols :: "int list list \<Rightarrow> nat" where
  "np_cols a = (case a of [] \<Rightarrow> 0 | r # _ \<Rightarrow> length r)"

definition np_diagonal :: "int list list \<Rightarrow> int \<Rightarrow> int list" where
  "np_diagonal a k =
     map (\<lambda>r. a ! r ! nat (int r + k))
       (filter (\<lambda>r. 0 \<le> int r + k \<and> int r + k < int (np_cols a)) [0..<length a])"

definition np_fliplr :: "int list list \<Rightarrow> int list list" where
  "np_fliplr a = map rev a"

definition count_gt1 :: "int list \<Rightarrow> int" where
  "count_gt1 xs = int (length (filter (\<lambda>c. 1 < c) xs))"

definition evaluate_mm :: "board \<Rightarrow> int" where
  "evaluate_mm b =
     (let n = size_b b;
          a = board_b b;
          row_counts = map sum_list a;
          col_counts = map (\<lambda>j. sum_list (map (\<lambda>r. r ! j) a)) [0..<np_cols a];
          diagonal_counts =
            concat (map (\<lambda>i. [sum_list (np_diagonal a (int i - int n + 1)),
                               sum_list (np_diagonal (np_fliplr a) (int i - int n + 1))])
                        [0..<2 * n - 1])
      in count_gt1 row_counts + count_gt1 col_counts + count_gt1 diagonal_counts)"

definition is_game_over_mm :: "board \<Rightarrow> bool" where
  "is_game_over_mm b = (np_sum (board_b b) = int (size_b b))"

section \<open>The alpha-beta search (alphabeta/alphabeta.py)\<close>

text \<open>
  The search works on the one shared board: it makes a move, recurses and takes the
  move back.  Every function below takes the board and returns it with its result.
  The counter \<^verbatim>\<open>nodes_evaluated\<close> and the clock are attributes of the engine, not of
  the board, and have no influence on scores or moves; they are left out.
  The depth is a natural number: the engines start a search with \<^verbatim>\<open>max_depth\<close>
  (4 unless set otherwise) or with the literal 3, and a call with depth 0 returns at once.

  \<^verbatim>\<open>self.board.board[i, j] = 1; self.board.queens_left -= 1\<close> and its inverse:
\<close>

definition make_move :: "board \<Rightarrow> int \<Rightarrow> int \<Rightarrow> board option" where
  "make_move b i j =
     do { b1 \<leftarrow> setitem b i j 1; Some (b1\<lparr>queens_left := queens_left b1 - 1\<rparr>) }"

definition undo_move :: "board \<Rightarrow> int \<Rightarrow> int \<Rightarrow> board option" where
  "undo_move b i j =
     do { b1 \<leftarrow> setitem b i j 0; Some (b1\<lparr>queens_left := queens_left b1 + 1\<rparr>) }"

text \<open>
  The loop of the maximizing branch over \<^verbatim>\<open>safe_positions\<close>; \<open>rec\<close> is the recursive
  call one level down.  The loop of the minimizing branch is its mirror image.
\<close>

fun ab_max_loop ::
  "(score \<Rightarrow> score \<Rightarrow> board \<Rightarrow> (score \<times> board) option) \<Rightarrow> score \<Rightarrow>
   (int \<times> int) list \<Rightarrow> board \<Rightarrow> score \<Rightarrow> score \<Rightarrow> (score \<times> board) option" where
  "ab_max_loop rec beta [] b max_eval alpha = Some (max_eval, b)"
| "ab_max_loop rec beta ((i, j) # ps) b max_eval alpha =
     do {
       b1 \<leftarrow> make_move b i j;
       (eval_score, b2) \<leftarrow> rec alpha beta b1;
       b3 \<leftarrow> undo_move b2 i j;
       let max_eval' = max max_eval eval_score;
           alpha' = max alpha eval_score
       in if beta \<le> alpha' then Some (max_eval', b3)
          else ab_max_loop rec beta ps b3 max_eval' alpha'
     }"

fun ab_min_loop ::
  "(score \<Rightarrow> score \<Rightarrow> board \<Rightarrow> (score \<times> board) option) \<Rightarrow> score \<Rightarrow>
   (int \<times> int) list \<Rightarrow> board \<Rightarrow> score \<Rightarrow> score \<Rightarrow> (score \<times> board) option" where
  "ab_min_loop rec alpha [] b min_eval beta = Some (min_eval, b)"
| "ab_min_loop rec alpha ((i, j) # ps) b min_eval beta =
     do {
       b1 \<leftarrow> make_move b i j;
       (eval_score, b2) \<leftarrow> rec alpha beta b1;
       b3 \<leftarrow> undo_move b2 i j;
       let min_eval' = min min_eval eval_score;
           beta' = min beta eval_score
       in if beta' \<le> alpha then Some (min_eval', b3)
          else ab_min_loop rec alpha ps b3 min_eval' beta'
     }"

definition eval_leaf :: "board \<Rightarrow> (score \<times> board) option" where
  "eval_leaf b = do { v \<leftarrow> evaluate b; Some (Fin v, b) }"

fun alpha_beta_search ::
  "nat \<Rightarrow> score \<Rightarrow> score \<Rightarrow> bool \<Rightarrow> board \<Rightarrow> (score \<times> board) option" where
  "alpha_beta_search 0 alpha beta is_maximizing_player b = eval_leaf b"
| "alpha_beta_search (Suc d) alpha beta is_maximizing_player b =
     (if is_game_over b then eval_leaf b
      else do {
        safe_positions \<leftarrow> get_safe_positions b;
        if safe_positions = [] then eval_leaf b
        else if is_maximizing_player
        then ab_max_loop (\<lambda>al be b'. alpha_beta_search d al be False b')
               beta safe_positions b NegInf alpha
        else ab_min_loop (\<lambda>al be b'. alpha_beta_search d al be True b')
               alpha safe_positions b PosInf beta
      })"

text \<open>
  \<^verbatim>\<open>AlphaBetaAI.get_best_move\<close>: the move (or \<^verbatim>\<open>None\<close>) and the board after the
  call.  \<open>max_depth\<close> is the engine's attribute of that name.
\<close>

fun best_move_loop ::
  "nat \<Rightarrow> (int \<times> int) list \<Rightarrow> board \<Rightarrow> score \<Rightarrow> (int \<times> int) option \<Rightarrow>
   ((int \<times> int) option \<times> board) option" where
  "best_move_loop max_depth [] b best_score best_move = Some (best_move, b)"
| "best_move_loop max_depth ((i, j) # ps) b best_score best_move =
     do {
       b1 \<leftarrow> make_move b i j;
       (score, b2) \<leftarrow> alpha_beta_search max_depth NegInf PosInf False b1;
       b3 \<leftarrow> undo_move b2 i j;
       if best_score < score then best_move_loop max_depth ps b3 score (Some (i, j))
       else best_move_loop max_depth ps b3 best_score best_move
     }"

definition get_best_move :: "nat \<Rightarrow> board \<Rightarrow> ((int \<times> int) option \<times> board) option" where
  "get_best_move max_depth b =
     do {
       safe_positions \<leftarrow> get_safe_positions b;
       if safe_positions = [] then Some (None, b)
       else best_move_loop max_depth safe_positions b NegInf None
     }"

section \<open>The unpruned minimax search (minimax/minimax.py)\<close>

text \<open>
  The engine calls \<^verbatim>\<open>self.board.evaluate()\<close> on whatever board object it was given;
  \<open>ev\<close> is that method.  With minimax/board.py it is \<^const>\<open>evaluate_mm\<close>.
  The two nested loops over \<^verbatim>\<open>range(size)\<close> have no \<^verbatim>\<open>break\<close> and visit the cells
  in row-major order.  A move sets the cell only; \<^verbatim>\<open>queens_left\<close> is not touched.
\<close>

fun mm_max_loop ::
  "(board \<Rightarrow> (score \<times> board) option) \<Rightarrow> (int \<times> int) list \<Rightarrow> board \<Rightarrow> score \<Rightarrow>
   (score \<times> board) option" where
  "mm_max_loop rec [] b max_eval = Some (max_eval, b)"
| "mm_max_loop rec ((i, j) # ps) b max_eval =
     do {
       t \<leftarrow> empty_and_safe b (i, j);
       if t then do {
         b1 \<leftarrow> setitem b i j 1;
         (eval, b2) \<leftarrow> rec b1;
         b3 \<leftarrow> setitem b2 i j 0;
         mm_max_loop rec ps b3 (max max_eval eval)
       }
       else mm_max_loop rec ps b max_eval
     }"

fun mm_min_loop ::
  "(board \<Rightarrow> (score \<times> board) option) \<Rightarrow> (int \<times> int) list \<Rightarrow> board \<Rightarrow> score \<Rightarrow>
   (score \<times> board) option" where
  "mm_min_loop rec [] b min_eval = Some (min_eval, b)"
| "mm_min_loop rec ((i, j) # ps) b min_eval =
     do {
       t \<leftarrow> empty_and_safe b (i, j);
       if t then do {
         b1 \<leftarrow> setitem b i j 1;
         (eval, b2) \<leftarrow> rec b1;
         b3 \<leftarrow> setitem b2 i j 0;
         mm_min_loop rec ps b3 (min min_eval eval)
       }
       else mm_min_loop rec ps b min_eval
     }"

definition all_cells :: "board \<Rightarrow> (int \<times> int) list" where
  "all_cells b = List.product (py_range (size_b b)) (py_range (size_b b))"

fun minimax :: "(board \<Rightarrow> int) \<Rightarrow> nat \<Rightarrow> bool \<Rightarrow> board \<Rightarrow> (score \<times> board) option" where
  "minimax ev 0 is_maximizing_player b = Some (Fin (ev b), b)"
| "minimax ev (Suc d) is_maximizing_player b =
     (if np_sum (board_b b) = int (size_b b) then Some (Fin (ev b), b)
      else if is_maximizing_player
      then mm_max_loop (\<lambda>b'. minimax ev d False b') (all_cells b) b NegInf
      else mm_min_loop (\<lambda>b'. minimax ev d True b') (all_cells b) b PosInf)"

text \<open>\<^verbatim>\<open>MinimaxAI.get_best_move\<close> of minimax/minimax.py, with its fixed depth 3.\<close>

fun mm_best_move_loop ::
  "(board \<Rightarrow> int) \<Rightarrow> (int \<times> int) list \<Rightarrow> board \<Rightarrow> score \<Rightarrow> (int \<times> int) option \<Rightarrow>
   ((int \<times> int) option \<times> board) option" where
  "mm_best_move_loop ev [] b best_score best_move = Some (best_move, b)"
| "mm_best_move_loop ev ((i, j) # ps) b best_score best_move =
     do {
       b1 \<leftarrow> setitem b i j 1;
       (score, b2) \<leftarrow> minimax ev 3 False b1;
       b3 \<leftarrow> setitem b2 i j 0;
       if best_score < score then mm_best_move_loop ev ps b3 score (Some (i, j))
       else mm_best_move_loop ev ps b3 best_score best_move
     }"

definition mm_get_best_move ::
  "(board \<Rightarrow> int) \<Rightarrow> board \<Rightarrow> ((int \<times> int) option \<times> board) option" where
  "mm_get_best_move ev b =
     do {
       valid_moves \<leftarrow> filter_m (empty_and_safe b) (all_cells b);
       if valid_moves = [] then Some (None, b)
       else mm_best_move_loop ev valid_moves b NegInf None
     }"

section \<open>The pruned minimax search (nqueens/minimax.py)\<close>

text \<open>
  The same nested loops with a window.  The \<^verbatim>\<open>break\<close> sits in the inner loop over
  the columns \<open>j\<close>: it leaves the current row, and the outer loop goes on with the next
  row and the window as it is.  The inner loop returns the board, the running
  optimum and the moved bound to the outer loop.
\<close>

fun nq_max_row ::
  "(score \<Rightarrow> score \<Rightarrow> board \<Rightarrow> (score \<times> board) option) \<Rightarrow> score \<Rightarrow> int \<Rightarrow> int list \<Rightarrow>
   board \<Rightarrow> score \<Rightarrow> score \<Rightarrow> (board \<times> score \<times> score) option" where
  "nq_max_row rec beta i [] b max_eval alpha = Some (b, max_eval, alpha)"
| "nq_max_row rec beta i (j # js) b max_eval alpha =
     do {
       t \<leftarrow> empty_and_safe b (i, j);
       if t then do {
         b1 \<leftarrow> setitem b i j 1;
         (eval, b2) \<leftarrow> rec alpha beta b1;
         b3 \<leftarrow> setitem b2 i j 0;
         let max_eval' = max max_eval eval;
             alpha' = max alpha eval
         in if beta \<le> alpha' then Some (b3, max_eval', alpha')
            else nq_max_row rec beta i js b3 max_eval' alpha'
       }
       else nq_max_row rec beta i js b max_eval alpha
     }"

fun nq_max_rows ::
  "(score \<Rightarrow> score \<Rightarrow> board \<Rightarrow> (score \<times> board) option) \<Rightarrow> score \<Rightarrow> int list \<Rightarrow>
   board \<Rightarrow> score \<Rightarrow> score \<Rightarrow> (score \<times> board) option" where
  "nq_max_rows rec beta [] b max_eval alpha = Some (max_eval, b)"
| "nq_max_rows rec beta (i # is) b max_eval alpha =
     do {
       (b', max_eval', alpha') \<leftarrow> nq_max_row rec beta i (py_range (size_b b)) b max_eval alpha;
       nq_max_rows rec beta is b' max_eval' alpha'
     }"

fun nq_min_row ::
  "(score \<Rightarrow> score \<Rightarrow> board \<Rightarrow> (score \<times> board) option) \<Rightarrow> score \<Rightarrow> int \<Rightarrow> int list \<Rightarrow>
   board \<Rightarrow> score \<Rightarrow> score \<Rightarrow> (board \<times> score \<times> score) option" where
  "nq_min_row rec alpha i [] b min_eval beta = Some (b, min_eval, beta)"
| "nq_min_row rec alpha i (j # js) b min_eval beta =
     do {
       t \<leftarrow> empty_and_safe b (i, j);
       if t then do {
         b1 \<leftarrow> setitem b i j 1;
         (eval, b2) \<leftarrow> rec alpha beta b1;
         b3 \<leftarrow> setitem b2 i j 0;
         let min_eval' = min min_eval eval;
             beta' = min beta eval
         in if beta' \<le> alpha then Some (b3, min_eval', beta')
            else nq_min_row rec alpha i js b3 min_eval' beta'
       }
       else nq_min_row rec alpha i js b min_eval beta
     }"

fun nq_min_rows ::
  "(score \<Rightarrow> score \<Rightarrow> board \<Rightarrow> (score \<times> board) option) \<Rightarrow> score \<Rightarrow> int list \<Rightarrow>
   board \<Rightarrow> score \<Rightarrow> score \<Rightarrow> (score \<times> board) option" where
  "nq_min_rows rec alpha [] b min_eval beta = Some (min_eval, b)"
| "nq_min_rows rec alpha (i # is) b min_eval beta =
     do {
       (b', min_eval', beta') \<leftarrow> nq_min_row rec alpha i (py_range (size_b b)) b min_eval beta;
       nq_min_rows rec alpha is b' min_eval' beta'
     }"

fun nq_minimax ::
  "(board \<Rightarrow> int) \<Rightarrow> nat \<Rightarrow> score \<Rightarrow> score \<Rightarrow> bool \<Rightarrow> board \<Rightarrow> (score \<times> board) option" where
  "nq_minimax ev 0 alpha beta is_maximizing_player b = Some (Fin (ev b), b)"
| "nq_minimax ev (Suc d) alpha beta is_maximizing_player b =
     (if np_sum (board_b b) = int (size_b b) then Some (Fin (ev b), b)
      else if is_maximizing_player
      then nq_max_rows (\<lambda>al be b'. nq_minimax ev d al be False b')
             beta (py_range (size_b b)) b NegInf alpha
      else nq_min_rows (\<lambda>al be b'. nq_minimax ev d al be True b')
             alpha (py_range (size_b b)) b PosInf beta)"

section \<open>Notions used in the statements\<close>

text \<open>
  A board as the constructor and \<^verbatim>\<open>reset\<close> build it: the array has \<^verbatim>\<open>size\<close> rows
  of \<^verbatim>\<open>size\<close> cells.
\<close>

definition wf_board :: "board \<Rightarrow> bool" where
  "wf_board b \<longleftrightarrow>
     length (board_b b) = size_b b \<and> (\<forall>r \<in> set (board_b b). length r = size_b b)"

definition in_range :: "board \<Rightarrow> int \<Rightarrow> bool" where
  "in_range b i \<longleftrightarrow> 0 \<le> i \<and> i < int (size_b b)"

text \<open>A queen stands on the cell \<open>(i, j)\<close>, for indices within the board.\<close>

definition queen_at :: "board \<Rightarrow> int \<Rightarrow> int \<Rightarrow> bool" where
  "queen_at b i j \<longleftrightarrow> board_b b ! nat i ! nat j = 1"

text \<open>
  Some queen of the board shares the row, the column or a diagonal with \<open>(row, col)\<close>;
  a queen on the cell itself counts.
\<close>

definition attacked :: "board \<Rightarrow> int \<Rightarrow> int \<Rightarrow> bool" where
  "attacked b row col \<longleftrightarrow>
     (\<exists>r' \<in> set (py_range (size_b b)). \<exists>c' \<in> set (py_range (size_b b)).
        queen_at b r' c' \<and> (r' = row \<or> c' = col \<or> \<bar>row - r'\<bar> = \<bar>col - c'\<bar>))"

text \<open>The board with the value \<open>v\<close> written to the cell \<open>(i, j)\<close>.\<close>

definition put :: "board \<Rightarrow> int \<Rightarrow> int \<Rightarrow> int \<Rightarrow> board" where
  "put b i j v = b\<lparr>board_b := (board_b b)[nat i := (board_b b ! nat i)[nat j := v]]\<rparr>"

text \<open>An empty cell that no queen attacks.\<close>

definition free_cell :: "board \<Rightarrow> int \<times> int \<Rightarrow> bool" where
  "free_cell b p \<longleftrightarrow> (case p of (i, j) \<Rightarrow> board_b b ! nat i ! nat j = 0 \<and> \<not> attacked b i j)"

text \<open>Row-major order on cells: row first, then column.\<close>

definition row_major_less :: "int \<times> int \<Rightarrow> int \<times> int \<Rightarrow> bool" where
  "row_major_less p q \<longleftrightarrow> fst p < fst q \<or> (fst p = fst q \<and> snd p < snd q)"

text \<open>A 4-by-4 board with one queen in the corner \<open>(0, 0)\<close>, used as a concrete input.\<close>

definition corner4 :: board where
  "corner4 = \<lparr>size_b = 4,
              board_b = [[1, 0, 0, 0], [0, 0, 0, 0], [0, 0, 0, 0], [0, 0, 0, 0]],
              queens_left = 3\<rparr>"

text \<open>
  The result \<open>e\<close> of a search with the window \<open>(alpha, beta)\<close> agrees with the true value
  \<open>v\<close>: both lie at or below \<open>alpha\<close>, or both at or above \<open>beta\<close>, or they are equal
  inside the window.
\<close>

definition agrees :: "score \<Rightarrow> score \<Rightarrow> score \<Rightarrow> score \<Rightarrow> bool" where
  "agrees alpha beta v e \<longleftrightarrow>
     (e \<le> alpha \<longrightarrow> v \<le> alpha) \<and> (alpha < e \<and> e < beta \<longrightarrow> e = v) \<and> (beta \<le> e \<longrightarrow> beta \<le> v)"

text \<open>
  The state of a maximizing loop that started with the window \<open>(alpha0, beta)\<close>, against
  the true maximum \<open>w\<close> of the children passed so far, visited or skipped.
\<close>

definition max_inv :: "score \<Rightarrow> score \<Rightarrow> score \<Rightarrow> score \<Rightarrow> score \<Rightarrow> bool" where
  "max_inv alpha0 beta max_eval alpha w \<longleftrightarrow>
     alpha = max alpha0 max_eval \<and>
     (if beta \<le> alpha then beta \<le> max_eval \<and> beta \<le> w
      else (max_eval \<le> alpha0 \<longrightarrow> w \<le> alpha0) \<and> (alpha0 < max_eval \<longrightarrow> w = max_eval))"

text \<open>The same for a minimizing loop that started with the window \<open>(alpha, beta0)\<close>.\<close>

definition min_inv :: "score \<Rightarrow> score \<Rightarrow> score \<Rightarrow> score \<Rightarrow> score \<Rightarrow> bool" where
  "min_inv alpha beta0 min_eval beta w \<longleftrightarrow>
     beta = min beta0 min_eval \<and>
     (if beta \<le> alpha then min_eval \<le> alpha \<and> w \<le> alpha
      else (beta0 \<le> min_eval \<longrightarrow> beta0 \<le> w) \<and> (min_eval < beta0 \<longrightarrow> w = min_eval))"

text \<open>The board with a queen written to the cell \<open>p\<close>; \<^verbatim>\<open>queens_left\<close> as it was.\<close>

definition placed :: "board \<Rightarrow> int \<times> int \<Rightarrow> board" where
  "placed b p = put b (fst p) (snd p) 1"

text \<open>The board after the move of the alpha-beta engine to the cell \<open>p\<close>.\<close>

definition moved :: "board \<Rightarrow> int \<times> int \<Rightarrow> board" where
  "moved b p = (placed b p)\<lparr>queens_left := queens_left b - 1\<rparr>"

text \<open>
  The unpruned search as section 4.2 of the specification words it, without the pruning
  step: the same terminal conditions, moves and undo as \<^const>\<open>alpha_beta_search\<close>, with a
  running maximum or minimum over all safe positions.  It is the reference that
  \<^const>\<open>alpha_beta_search\<close> is compared with.
\<close>

fun spec_max_loop ::
  "(board \<Rightarrow> (score \<times> board) option) \<Rightarrow> (int \<times> int) list \<Rightarrow> board \<Rightarrow> score \<Rightarrow>
   (score \<times> board) option" where
  "spec_max_loop rec [] b best = Some (best, b)"
| "spec_max_loop rec ((i, j) # ps) b best =
     do {
       b1 \<leftarrow> make_move b i j;
       (s, b2) \<leftarrow> rec b1;
       b3 \<leftarrow> undo_move b2 i j;
       spec_max_loop rec ps b3 (max best s)
     }"

fun spec_min_loop ::
  "(board \<Rightarrow> (score \<times> board) option) \<Rightarrow> (int \<times> int) list \<Rightarrow> board \<Rightarrow> score \<Rightarrow>
   (score \<times> board) option" where
  "spec_min_loop rec [] b best = Some (best, b)"
| "spec_min_loop rec ((i, j) # ps) b best =
     do {
       b1 \<leftarrow> make_move b i j;
       (s, b2) \<leftarrow> rec b1;
       b3 \<leftarrow> undo_move b2 i j;
       spec_min_loop rec ps b3 (min best s)
     }"

fun spec_minimax :: "nat \<Rightarrow> bool \<Rightarrow> board \<Rightarrow> (score \<times> board) option" where
  "spec_minimax 0 maximizing b = eval_leaf b"
| "spec_minimax (Suc d) maximizing b =
     (if is_game_over b then eval_leaf b
      else do {
        safe_positions \<leftarrow> get_safe_positions b;
        if safe_positions = [] then eval_leaf b
        else if maximizing
        then spec_max_loop (\<lambda>b'. spec_minimax d False b') safe_positions b NegInf
        else spec_min_loop (\<lambda>b'. spec_minimax d True b') safe_positions b PosInf
      })"

text \<open>A score that is an integer, not one of the infinities.\<close>

definition is_fin :: "score \<Rightarrow> bool" where
  "is_fin s \<longleftrightarrow> (case s of Fin x \<Rightarrow> True | _ \<Rightarrow> False)"

text \<open>
  A 2-by-2 board with a queen at \<open>(0, 0)\<close>: no cell is safe and one queen is still to
  be placed.
\<close>

definition dead2 :: board where
  "dead2 = \<lparr>size_b = 2, board_b = [[1, 0], [0, 0]], queens_left = 1\<rparr>"

text \<open>
  The choice that the loop of \<^verbatim>\<open>get_best_move\<close> makes, given the score \<open>S p\<close> of every
  candidate: a later candidate replaces the best one only with a strictly greater score.
\<close>

definition keep_best ::
  "((int \<times> int) \<Rightarrow> score) \<Rightarrow> score \<times> (int \<times> int) option \<Rightarrow> (int \<times> int) \<Rightarrow>
   score \<times> (int \<times> int) option" where
  "keep_best S st p = (if fst st < S p then (S p, Some p) else st)"

text \<open>The number of cells of the array that hold a queen.\<close>

definition occupied :: "board \<Rightarrow> int" where
  "occupied b = sum_list (map (\<lambda>r. int (count_list r 1)) (board_b b))"

text \<open>
  The states a game passes through.  A state is the board together with the moves that
  a running search has made and not yet undone, latest first.  A fresh board comes from
  the constructor; \<^verbatim>\<open>reset\<close> and \<^verbatim>\<open>place_queen\<close> are called between searches; the
  alpha-beta engine moves to a cell of \<^verbatim>\<open>get_safe_positions\<close> with
  \<^const>\<open>make_move\<close> and takes its latest move back with \<^const>\<open>undo_move\<close>; the minimax
  engines move to a cell that passes \<^const>\<open>empty_and_safe\<close> by writing 1 to it and take
  the latest move back by writing 0.
\<close>

datatype engine = AlphaBeta | Minimax

inductive reachable :: "engine \<Rightarrow> board \<Rightarrow> (int \<times> int) list \<Rightarrow> bool" where
  fresh: "reachable e (init_board n) []"
| after_reset: "reachable e b [] \<Longrightarrow> reachable e (reset b new_size) []"
| after_place:
    "reachable e b [] \<Longrightarrow> place_queen b row col = Some (ok, b') \<Longrightarrow> reachable e b' []"
| alphabeta_move:
    "reachable AlphaBeta b st \<Longrightarrow> get_safe_positions b = Some sp \<Longrightarrow> (i, j) \<in> set sp \<Longrightarrow>
     make_move b i j = Some b' \<Longrightarrow> reachable AlphaBeta b' ((i, j) # st)"
| alphabeta_undo:
    "reachable AlphaBeta b ((i, j) # st) \<Longrightarrow> undo_move b i j = Some b' \<Longrightarrow>
     reachable AlphaBeta b' st"
| minimax_move:
    "reachable Minimax b st \<Longrightarrow> (i, j) \<in> set (all_cells b) \<Longrightarrow>
     empty_and_safe b (i, j) = Some True \<Longrightarrow> setitem b i j 1 = Some b' \<Longrightarrow>
     reachable Minimax b' ((i, j) # st)"
| minimax_undo:
    "reachable Minimax b ((i, j) # st) \<Longrightarrow> setitem b i j 0 = Some b' \<Longrightarrow>
     reachable Minimax b' st"

text \<open>The moves of a minimax search that are not yet undone; none counts for alpha-beta.\<close>

definition pending :: "engine \<Rightarrow> (int \<times> int) list \<Rightarrow> int" where
  "pending e st = (case e of AlphaBeta \<Rightarrow> 0 | Minimax \<Rightarrow> int (length st))"

text \<open>The moves not yet undone are distinct cells of the board, each holding a queen.\<close>

definition stack_ok :: "board \<Rightarrow> (int \<times> int) list \<Rightarrow> bool" where
  "stack_ok b st \<longleftrightarrow>
     distinct st
     \<and> (\<forall>p \<in> set st. in_range b (fst p) \<and> in_range b (snd p) \<and> queen_at b (fst p) (snd p))"

definition reach_inv :: "engine \<Rightarrow> board \<Rightarrow> (int \<times> int) list \<Rightarrow> bool" where
  "reach_inv e b st \<longleftrightarrow>
     wf_board b \<and> stack_ok b st
     \<and> queens_left b = int (size_b b) - occupied b + pending e st"

text \<open>
  The fresh 4-by-4 board after the first move of a minimax search to \<open>(0, 0)\<close>.
\<close>

definition first_move4 :: board where
  "first_move4 = \<lparr>size_b = 4,
                  board_b = [[1, 0, 0, 0], [0, 0, 0, 0], [0, 0, 0, 0], [0, 0, 0, 0]],
                  queens_left = 4\<rparr>"

section \<open>Properties of the board\<close>

lemma set_py_range: "set (py_range n) = {i. 0 \<le> i \<and> i < int n}"
proof -
  have "i \<in> int ` {0..<n} \<longleftrightarrow> 0 \<le> i \<and> i < int n" for i
  proof
    assume "i \<in> int ` {0..<n}"
    then show "0 \<le> i \<and> i < int n" by auto
  next
    assume h: "0 \<le> i \<and> i < int n"
    then have "nat i \<in> {0..<n}" "int (nat i) = i" by auto
    then show "i \<in> int ` {0..<n}" by (metis imageI)
  qed
  then show ?thesis by (auto simp: py_range_def)
qed

lemma in_range_iff: "in_range b i \<longleftrightarrow> i \<in> set (py_range (size_b b))"
  by (simp add: in_range_def set_py_range)

lemma np_index_in: "0 \<le> i \<Longrightarrow> i < int n \<Longrightarrow> np_index n i = Some (nat i)"
  by (simp add: np_index_def)

lemma wf_row_length: "wf_board b \<Longrightarrow> i < size_b b \<Longrightarrow> length (board_b b ! i) = size_b b"
  by (simp add: wf_board_def)

lemma getitem_wf:
  assumes "wf_board b" "in_range b i" "in_range b j"
  shows "getitem b i j = Some (board_b b ! nat i ! nat j)"
proof -
  have l: "length (board_b b) = size_b b" using assms(1) by (simp add: wf_board_def)
  have i: "nat i < size_b b" using assms(2) by (auto simp: in_range_def)
  have r: "length (board_b b ! nat i) = size_b b" using assms(1) i by (rule wf_row_length)
  show ?thesis using assms(2,3)
    by (simp add: getitem_def l r np_index_in in_range_def)
qed

lemma setitem_wf:
  assumes "wf_board b" "in_range b i" "in_range b j"
  shows "setitem b i j v = Some (put b i j v)"
proof -
  have l: "length (board_b b) = size_b b" using assms(1) by (simp add: wf_board_def)
  have i: "nat i < size_b b" using assms(2) by (auto simp: in_range_def)
  have r: "length (board_b b ! nat i) = size_b b" using assms(1) i by (rule wf_row_length)
  show ?thesis using assms(2,3)
    by (simp add: setitem_def l r np_index_in in_range_def put_def)
qed

lemma any_m_Some:
  "(\<And>x. x \<in> set xs \<Longrightarrow> f x = Some (g x)) \<Longrightarrow> any_m f xs = Some (\<exists>x \<in> set xs. g x)"
  by (induction xs) (auto split: bool.splits)

lemma filter_m_Some:
  "(\<And>x. x \<in> set xs \<Longrightarrow> f x = Some (g x)) \<Longrightarrow> filter_m f xs = Some (filter g xs)"
  by (induction xs) auto

lemma row_col_hit_wf:
  assumes "wf_board b" "in_range b row" "in_range b col" "in_range b i"
  shows "row_col_hit b row col i = Some (queen_at b row i \<or> queen_at b i col)"
  using assms by (simp add: row_col_hit_def getitem_wf queen_at_def)

lemma diag_hit_wf:
  assumes "wf_board b" "in_range b i" "in_range b j"
  shows "diag_hit b row col (i, j) =
           Some ((i + j = row + col \<or> i - j = row - col) \<and> queen_at b i j)"
  using assms by (simp add: diag_hit_def getitem_wf queen_at_def)

lemma diag_abs: "(i + j = row + col \<or> i - j = row - col) \<longleftrightarrow> \<bar>row - i\<bar> = \<bar>col - (j::int)\<bar>"
  by (auto simp: abs_if)

lemma is_safe_wf:
  assumes wf: "wf_board b" and r: "in_range b row" and c: "in_range b col"
  shows "is_safe b row col = Some (\<not> attacked b row col)"
proof -
  let ?R = "py_range (size_b b)"
  have rc: "any_m (row_col_hit b row col) ?R
              = Some (\<exists>i \<in> set ?R. queen_at b row i \<or> queen_at b i col)"
    using row_col_hit_wf [OF wf r c] by (intro any_m_Some) (simp add: in_range_iff)
  have dg: "any_m (diag_hit b row col) (List.product ?R ?R)
              = Some (\<exists>p \<in> set (List.product ?R ?R).
                        (fst p + snd p = row + col \<or> fst p - snd p = row - col)
                        \<and> queen_at b (fst p) (snd p))"
    by (rule any_m_Some) (auto simp: diag_hit_wf wf in_range_iff)
  have rin: "row \<in> set ?R" "col \<in> set ?R" using r c by (simp_all add: in_range_iff)
  have eq: "attacked b row col \<longleftrightarrow>
              queen_at b row col
              \<or> (\<exists>i \<in> set ?R. queen_at b row i \<or> queen_at b i col)
              \<or> (\<exists>p \<in> set (List.product ?R ?R).
                        (fst p + snd p = row + col \<or> fst p - snd p = row - col)
                        \<and> queen_at b (fst p) (snd p))"
    unfolding attacked_def diag_abs using rin by auto
  have "is_safe b row col =
          Some (\<not> (queen_at b row col
              \<or> (\<exists>i \<in> set ?R. queen_at b row i \<or> queen_at b i col)
              \<or> (\<exists>p \<in> set (List.product ?R ?R).
                        (fst p + snd p = row + col \<or> fst p - snd p = row - col)
                        \<and> queen_at b (fst p) (snd p))))"
    unfolding is_safe_def Let_def getitem_wf [OF wf r c] rc dg
    by (simp add: queen_at_def)
  then show ?thesis
    by (simp only: eq)
qed

lemma rows_update_length:
  assumes "\<forall>r \<in> set g. length r = n"
  shows "\<forall>r \<in> set (g[i := (g ! i)[j := v]]). length r = n"
proof
  fix r assume r: "r \<in> set (g[i := (g ! i)[j := v]])"
  show "length r = n"
  proof (cases "i < length g")
    case True
    have "set (g[i := (g ! i)[j := v]]) \<subseteq> insert ((g ! i)[j := v]) (set g)"
      by (rule set_update_subset_insert)
    with r have "r = (g ! i)[j := v] \<or> r \<in> set g" by blast
    moreover have "length ((g ! i)[j := v]) = n"
      using True assms by (metis length_list_update nth_mem)
    ultimately show ?thesis using assms by blast
  next
    case False
    then have "g[i := (g ! i)[j := v]] = g" by (simp add: list_update_beyond not_less)
    with r assms show ?thesis by metis
  qed
qed

lemma wf_put: "wf_board b \<Longrightarrow> wf_board (put b i j v)"
  unfolding wf_board_def put_def
  using rows_update_length [of "board_b b" "size_b b" "nat i" "nat j" v] by simp

lemma put_put_back:
  assumes "board_b b ! nat i ! nat j = v0"
  shows "put (put b i j v) i j v0 = b"
proof -
  let ?g = "board_b b"
  have "?g[nat i := (?g[nat i := (?g ! nat i)[nat j := v]] ! nat i)[nat j := v0]] = ?g"
  proof (cases "nat i < length ?g")
    case True
    have "(?g ! nat i)[nat j := v0] = ?g ! nat i"
      unfolding assms [symmetric] by (rule list_update_id)
    then have "(?g[nat i := (?g ! nat i)[nat j := v]] ! nat i)[nat j := v0] = ?g ! nat i"
      using True by simp
    then show ?thesis by (simp add: list_update_id)
  next
    case False
    then show ?thesis by (simp add: list_update_beyond not_less)
  qed
  then show ?thesis by (simp add: put_def)
qed

lemma size_put [simp]: "size_b (put b i j v) = size_b b"
  by (simp add: put_def)

lemma queens_left_put [simp]: "queens_left (put b i j v) = queens_left b"
  by (simp add: put_def)

lemma in_range_put [simp]: "in_range (put b i j v) k = in_range b k"
  by (simp add: in_range_def)

lemma empty_and_safe_wf:
  assumes "wf_board b" "in_range b i" "in_range b j"
  shows "empty_and_safe b (i, j) = Some (free_cell b (i, j))"
  using assms by (simp add: empty_and_safe_def getitem_wf is_safe_wf free_cell_def)

lemma all_cells_in_range:
  "(i, j) \<in> set (all_cells b) \<longleftrightarrow> in_range b i \<and> in_range b j"
  by (simp add: all_cells_def in_range_iff)

lemma get_safe_positions_wf:
  assumes "wf_board b"
  shows "get_safe_positions b = Some (filter (free_cell b) (all_cells b))"
proof -
  have "filter_m (empty_and_safe b) (all_cells b) = Some (filter (free_cell b) (all_cells b))"
  proof (rule filter_m_Some)
    fix x assume x: "x \<in> set (all_cells b)"
    obtain i j where ij: "x = (i, j)" by (cases x)
    from x have "in_range b i" "in_range b j"
      unfolding ij by (simp_all add: all_cells_in_range)
    then show "empty_and_safe b x = Some (free_cell b x)"
      unfolding ij using assms by (simp add: empty_and_safe_wf)
  qed
  then show ?thesis by (simp add: get_safe_positions_def all_cells_def)
qed

lemma evaluate_wf:
  assumes "wf_board b"
  shows "evaluate b =
    Some (if queens_left b = 0 then 1000
          else if filter (free_cell b) (all_cells b) = [] \<and> 0 < queens_left b then - 1000
          else (int (size_b b) - queens_left b) * 10
                 + int (length (filter (free_cell b) (all_cells b))))"
  unfolding evaluate_def Let_def get_safe_positions_wf [OF assms]
  by simp

lemma place_queen_wf:
  assumes "wf_board b" "in_range b row" "in_range b col"
  shows "place_queen b row col =
     Some (if attacked b row col then (False, b)
           else (True, (put b row col 1)\<lparr>queens_left := queens_left b - 1\<rparr>))"
  unfolding place_queen_def is_safe_wf [OF assms] setitem_wf [OF assms]
  by simp

lemma wf_corner4: "wf_board corner4"
  by (simp add: wf_board_def corner4_def)

lemma in_range_corner4: "in_range corner4 i \<longleftrightarrow> 0 \<le> i \<and> i < 4"
  by (simp add: in_range_def corner4_def)

lemma queen_attacked:
  assumes "in_range b row" "in_range b col" "queen_at b row col"
  shows "attacked b row col"
  unfolding attacked_def using assms by (auto simp: in_range_iff)

section \<open>The claims about the board\<close>

text \<open>
  Claim C7.  On a board whose array is \<open>size \<times> size\<close>, for a cell \<open>(row, col)\<close> within the
  board, \<^verbatim>\<open>is_safe(row, col)\<close> raises nothing and returns false exactly when some queen
  at \<open>(r', c')\<close> has \<open>r' = row\<close>, or \<open>c' = col\<close>, or \<open>|row - r'| = |col - c'|\<close>, and
  true otherwise; in particular it returns false when the cell itself holds a queen.
\<close>

theorem is_safe_iff_not_attacked:
  assumes "wf_board b" "in_range b row" "in_range b col"
  shows "is_safe b row col =
           Some (\<not> (\<exists>r' \<in> set (py_range (size_b b)). \<exists>c' \<in> set (py_range (size_b b)).
                      queen_at b r' c'
                      \<and> (r' = row \<or> c' = col \<or> \<bar>row - r'\<bar> = \<bar>col - c'\<bar>)))
         \<and> (queen_at b row col \<longrightarrow> is_safe b row col = Some False)"
  using is_safe_wf [OF assms] queen_attacked [OF assms(2,3)]
  by (auto simp: attacked_def)

text \<open>
  At the corner board: the cell \<open>(1, 1)\<close> is on a diagonal of the queen at \<open>(0, 0)\<close>,
  so the theorem makes \<^verbatim>\<open>is_safe(1, 1)\<close> false.
\<close>

theorem is_safe_iff_not_attacked_witness:
  "wf_board corner4 \<and> in_range corner4 1 \<and> queen_at corner4 0 0
   \<and> is_safe corner4 1 1 = Some False"
proof -
  have r: "in_range corner4 1" by (simp add: in_range_corner4)
  have q: "queen_at corner4 0 0" by (simp add: queen_at_def corner4_def)
  have z: "(0::int) \<in> set (py_range (size_b corner4))"
    by (simp add: set_py_range corner4_def)
  have "\<exists>r' \<in> set (py_range (size_b corner4)). \<exists>c' \<in> set (py_range (size_b corner4)).
          queen_at corner4 r' c' \<and> (r' = 1 \<or> c' = 1 \<or> \<bar>1 - r'\<bar> = \<bar>1 - c'\<bar>)"
    using q z by (intro bexI [of _ 0]) simp_all
  then show ?thesis
    using is_safe_iff_not_attacked [OF wf_corner4 r r] wf_corner4 r q by simp
qed

text \<open>
  Claim C8.  For a cell within the board: if \<^verbatim>\<open>is_safe(row, col)\<close> holds then
  \<^verbatim>\<open>place_queen(row, col)\<close> returns true, the cell holds a queen afterwards, nothing
  else of the array changes and \<^verbatim>\<open>queens_left\<close> is one less; if it does not hold then
  \<^verbatim>\<open>place_queen\<close> returns false and the board is the one it was.
\<close>

theorem place_queen_result:
  assumes "wf_board b" "in_range b row" "in_range b col"
  shows "(is_safe b row col = Some True \<longrightarrow>
            (\<exists>b'. place_queen b row col = Some (True, b')
                  \<and> b' = (put b row col 1)\<lparr>queens_left := queens_left b - 1\<rparr>
                  \<and> getitem b' row col = Some 1
                  \<and> queens_left b' = queens_left b - 1))
         \<and> (is_safe b row col \<noteq> Some True \<longrightarrow> place_queen b row col = Some (False, b))"
proof -
  let ?b' = "(put b row col 1)\<lparr>queens_left := queens_left b - 1\<rparr>"
  have wf': "wf_board ?b'"
    using wf_put [OF assms(1), of row col 1] by (simp add: wf_board_def put_def)
  have rg: "in_range ?b' row" "in_range ?b' col"
    using assms(2,3) by (simp_all add: in_range_def put_def)
  have "nat row < length (board_b b)" "nat col < length (board_b b ! nat row)"
    using assms by (auto simp: wf_board_def in_range_def)
  then have "board_b ?b' ! nat row ! nat col = 1"
    by (simp add: put_def)
  then have "getitem ?b' row col = Some 1"
    using getitem_wf [OF wf' rg] by simp
  then show ?thesis
    using place_queen_wf [OF assms] is_safe_wf [OF assms] by auto
qed

text \<open>At the corner board, \<open>(2, 1)\<close> is safe and \<open>(1, 1)\<close> is not.\<close>

theorem place_queen_result_witness:
  "wf_board corner4 \<and> in_range corner4 2 \<and> in_range corner4 1
   \<and> is_safe corner4 2 1 = Some True
   \<and> place_queen corner4 2 1
       = Some (True, (put corner4 2 1 1)\<lparr>queens_left := queens_left corner4 - 1\<rparr>)
   \<and> is_safe corner4 1 1 \<noteq> Some True
   \<and> place_queen corner4 1 1 = Some (False, corner4)"
proof -
  have r: "in_range corner4 2" and c: "in_range corner4 1"
    by (simp_all add: in_range_corner4)
  have s: "is_safe corner4 2 1 = Some True" by code_simp
  have u: "is_safe corner4 1 1 \<noteq> Some True" by code_simp
  show ?thesis
    using place_queen_result [OF wf_corner4 r c] place_queen_result [OF wf_corner4 c c]
      wf_corner4 r c s u
    by simp
qed

text \<open>
  Claim C9.  The constructive \<^verbatim>\<open>evaluate\<close> returns 1000 when \<^verbatim>\<open>queens_left\<close> is 0;
  returns -1000 when \<^verbatim>\<open>queens_left\<close> is positive and there is no safe position; and
  otherwise returns ten times the number of queens placed (\<^verbatim>\<open>size - queens_left\<close>) plus
  the number of safe positions.
\<close>

theorem evaluate_cases:
  assumes "wf_board b"
  shows "(queens_left b = 0 \<longrightarrow> evaluate b = Some 1000)
       \<and> (0 < queens_left b \<and> get_safe_positions b = Some [] \<longrightarrow> evaluate b = Some (- 1000))
       \<and> (queens_left b \<noteq> 0 \<and> \<not> (0 < queens_left b \<and> get_safe_positions b = Some []) \<longrightarrow>
            (\<exists>sp. get_safe_positions b = Some sp
                 \<and> evaluate b
                     = Some (10 * (int (size_b b) - queens_left b) + int (length sp))))"
  using evaluate_wf [OF assms] get_safe_positions_wf [OF assms] by auto

text \<open>The corner board has one queen placed and six safe positions: the score is 16.\<close>

theorem evaluate_cases_witness:
  "wf_board corner4 \<and> queens_left corner4 \<noteq> 0
   \<and> get_safe_positions corner4 = Some [(1, 2), (1, 3), (2, 1), (2, 3), (3, 1), (3, 2)]
   \<and> evaluate corner4 = Some 16"
proof -
  have q: "queens_left corner4 \<noteq> 0" by (simp add: corner4_def)
  have g: "get_safe_positions corner4 = Some [(1, 2), (1, 3), (2, 1), (2, 3), (3, 1), (3, 2)]"
    by code_simp
  have "size_b corner4 = 4" "queens_left corner4 = 3" by (simp_all add: corner4_def)
  then show ?thesis
    using evaluate_cases [OF wf_corner4] wf_corner4 q g by simp
qed

text \<open>
  Claim C10.  On a board of size \<open>n\<close> whose array is \<open>n \<times> n\<close>, with \<open>0 \<le> row, col < n\<close>,
  none of \<^verbatim>\<open>is_safe\<close>, \<^verbatim>\<open>place_queen\<close>, \<^verbatim>\<open>get_safe_positions\<close> and \<^verbatim>\<open>evaluate\<close> reads
  or writes outside the array (no call ends in \<^verbatim>\<open>IndexError\<close>), and every position
  that \<^verbatim>\<open>get_safe_positions\<close> returns lies in \<open>[0, n) \<times> [0, n)\<close>.
\<close>

theorem board_accesses_in_bounds:
  assumes "wf_board b" "in_range b row" "in_range b col"
  shows "is_safe b row col \<noteq> None \<and> place_queen b row col \<noteq> None
         \<and> get_safe_positions b \<noteq> None \<and> evaluate b \<noteq> None
         \<and> (\<forall>ps. get_safe_positions b = Some ps \<longrightarrow>
               (\<forall>p \<in> set ps. in_range b (fst p) \<and> in_range b (snd p)))"
proof -
  have "\<forall>p \<in> set (filter (free_cell b) (all_cells b)). in_range b (fst p) \<and> in_range b (snd p)"
    by (auto simp: all_cells_in_range)
  then show ?thesis
    using is_safe_wf [OF assms] place_queen_wf [OF assms]
      get_safe_positions_wf [OF assms(1)] evaluate_wf [OF assms(1)]
    by simp
qed

theorem board_accesses_in_bounds_witness:
  "wf_board corner4 \<and> in_range corner4 2 \<and> in_range corner4 1
   \<and> is_safe corner4 2 1 \<noteq> None \<and> place_queen corner4 2 1 \<noteq> None
   \<and> get_safe_positions corner4 = Some [(1, 2), (1, 3), (2, 1), (2, 3), (3, 1), (3, 2)]
   \<and> evaluate corner4 \<noteq> None
   \<and> list_all (\<lambda>p. in_range corner4 (fst p) \<and> in_range corner4 (snd p))
        [(1, 2), (1, 3), (2, 1), (2, 3), (3, 1), (3, 2)]"
proof -
  have r: "in_range corner4 2" and c: "in_range corner4 1"
    by (simp_all add: in_range_corner4)
  have g: "get_safe_positions corner4 = Some [(1, 2), (1, 3), (2, 1), (2, 3), (3, 1), (3, 2)]"
    by code_simp
  note t = board_accesses_in_bounds [OF wf_corner4 r c]
  from t g have "\<forall>p \<in> set [(1, 2), (1, 3), (2, 1), (2, 3), (3, 1), (3, 2)].
                   in_range corner4 (fst p) \<and> in_range corner4 (snd p)"
    by blast
  then have "list_all (\<lambda>p. in_range corner4 (fst p) \<and> in_range corner4 (snd p))
               [(1, 2), (1, 3), (2, 1), (2, 3), (3, 1), (3, 2)]"
    unfolding list_all_iff .
  with t g wf_corner4 r c show ?thesis by blast
qed

section \<open>Properties of the minimax searches\<close>

lemma NegInf_least [simp]: "NegInf \<le> x"
  by simp

lemma PosInf_greatest [simp]: "x \<le> PosInf"
  by (cases x) simp_all

lemma max_NegInf [simp]: "max NegInf x = x" "max x NegInf = x"
  by (simp_all add: max_def) (cases x; simp)+

lemma min_PosInf [simp]: "min PosInf x = x" "min x PosInf = x"
  by (simp_all add: min_def) (cases x; simp)+

lemma max_inv_init: "alpha0 < beta \<Longrightarrow> max_inv alpha0 beta NegInf alpha0 NegInf"
  by (auto simp: max_inv_def)

lemma min_inv_init: "alpha < beta0 \<Longrightarrow> min_inv alpha beta0 PosInf beta0 PosInf"
  by (auto simp: min_inv_def)

lemma max_inv_final: "alpha0 < beta \<Longrightarrow> max_inv alpha0 beta me al w \<Longrightarrow> agrees alpha0 beta w me"
  by (auto simp: max_inv_def agrees_def split: if_splits)

lemma min_inv_final: "alpha < beta0 \<Longrightarrow> min_inv alpha beta0 me be w \<Longrightarrow> agrees alpha beta0 w me"
  by (auto simp: min_inv_def agrees_def split: if_splits)

lemma max_inv_step:
  assumes "alpha0 < beta" "max_inv alpha0 beta me al w" "al < beta \<longrightarrow> agrees al beta vp e"
  shows "max_inv alpha0 beta (max me e) (max al e) (max w vp)"
  using assms unfolding max_inv_def agrees_def
  by (auto simp: max_def split: if_splits)

lemma max_inv_skip:
  assumes "max_inv alpha0 beta me al w" "beta \<le> al"
  shows "max_inv alpha0 beta me al (max w vp)"
  using assms unfolding max_inv_def
  by (auto simp: max_def split: if_splits)

lemma min_inv_step:
  assumes "alpha < beta0" "min_inv alpha beta0 me be w" "alpha < be \<longrightarrow> agrees alpha be vp e"
  shows "min_inv alpha beta0 (min me e) (min be e) (min w vp)"
  using assms unfolding min_inv_def agrees_def
  by (auto simp: min_def split: if_splits)

lemma min_inv_skip:
  assumes "min_inv alpha beta0 me be w" "be \<le> alpha"
  shows "min_inv alpha beta0 me be (min w vp)"
  using assms unfolding min_inv_def
  by (auto simp: min_def split: if_splits)

lemma max_inv_skip_list:
  "max_inv alpha0 beta me al w \<Longrightarrow> beta \<le> al \<Longrightarrow> max_inv alpha0 beta me al (foldl max w xs)"
  by (induction xs arbitrary: w) (simp_all add: max_inv_skip)

lemma min_inv_skip_list:
  "min_inv alpha beta0 me be w \<Longrightarrow> be \<le> alpha \<Longrightarrow> min_inv alpha beta0 me be (foldl min w xs)"
  by (induction xs arbitrary: w) (simp_all add: min_inv_skip)

lemma wf_placed: "wf_board b \<Longrightarrow> wf_board (placed b p)"
  by (simp add: placed_def wf_put)

lemma setitem_place:
  assumes "wf_board b" "in_range b i" "in_range b j"
  shows "setitem b i j 1 = Some (placed b (i, j))"
  using setitem_wf [OF assms] by (simp add: placed_def)

lemma setitem_unplace:
  assumes "wf_board b" "in_range b i" "in_range b j" "free_cell b (i, j)"
  shows "setitem (placed b (i, j)) i j 0 = Some b"
proof -
  have z: "board_b b ! nat i ! nat j = 0" using assms(4) by (simp add: free_cell_def)
  have "setitem (placed b (i, j)) i j 0 = Some (put (placed b (i, j)) i j 0)"
    using assms(1-3) by (intro setitem_wf wf_placed) (simp_all add: placed_def)
  then show ?thesis
    by (simp add: placed_def put_put_back [OF z])
qed

lemma mm_max_loop_value:
  assumes wf: "wf_board b"
    and ps: "set ps \<subseteq> set (all_cells b)"
    and rec: "\<And>p. p \<in> set ps \<Longrightarrow> free_cell b p \<Longrightarrow> rec (placed b p) = Some (V p, placed b p)"
  shows "mm_max_loop rec ps b me = Some (foldl max me (map V (filter (free_cell b) ps)), b)"
  using ps rec
proof (induction ps arbitrary: me)
  case Nil
  then show ?case by simp
next
  case (Cons p ps)
  obtain i j where ij: "p = (i, j)" by (cases p)
  have rg: "in_range b i" "in_range b j"
    using Cons.prems(1) by (simp_all add: ij all_cells_in_range)
  have t: "empty_and_safe b (i, j) = Some (free_cell b (i, j))"
    by (rule empty_and_safe_wf [OF wf rg])
  have IH: "\<And>me. mm_max_loop rec ps b me
              = Some (foldl max me (map V (filter (free_cell b) ps)), b)"
    using Cons.IH Cons.prems by simp
  show ?case
  proof (cases "free_cell b (i, j)")
    case True
    have r: "rec (placed b (i, j)) = Some (V (i, j), placed b (i, j))"
      using Cons.prems(2) [of p] True by (simp add: ij)
    show ?thesis
      unfolding ij
      by (simp add: t True setitem_place [OF wf rg] r setitem_unplace [OF wf rg True] IH)
  next
    case False
    then show ?thesis
      unfolding ij by (simp add: t IH)
  qed
qed

lemma mm_min_loop_value:
  assumes wf: "wf_board b"
    and ps: "set ps \<subseteq> set (all_cells b)"
    and rec: "\<And>p. p \<in> set ps \<Longrightarrow> free_cell b p \<Longrightarrow> rec (placed b p) = Some (V p, placed b p)"
  shows "mm_min_loop rec ps b me = Some (foldl min me (map V (filter (free_cell b) ps)), b)"
  using ps rec
proof (induction ps arbitrary: me)
  case Nil
  then show ?case by simp
next
  case (Cons p ps)
  obtain i j where ij: "p = (i, j)" by (cases p)
  have rg: "in_range b i" "in_range b j"
    using Cons.prems(1) by (simp_all add: ij all_cells_in_range)
  have t: "empty_and_safe b (i, j) = Some (free_cell b (i, j))"
    by (rule empty_and_safe_wf [OF wf rg])
  have IH: "\<And>me. mm_min_loop rec ps b me
              = Some (foldl min me (map V (filter (free_cell b) ps)), b)"
    using Cons.IH Cons.prems by simp
  show ?case
  proof (cases "free_cell b (i, j)")
    case True
    have r: "rec (placed b (i, j)) = Some (V (i, j), placed b (i, j))"
      using Cons.prems(2) [of p] True by (simp add: ij)
    show ?thesis
      unfolding ij
      by (simp add: t True setitem_place [OF wf rg] r setitem_unplace [OF wf rg True] IH)
  next
    case False
    then show ?thesis
      unfolding ij by (simp add: t IH)
  qed
qed

lemma nq_max_row_inv:
  assumes wf: "wf_board b" and i: "in_range b i"
    and rec: "\<And>al be p. p \<in> set (all_cells b) \<Longrightarrow> free_cell b p \<Longrightarrow>
                \<exists>e. rec al be (placed b p) = Some (e, placed b p)
                    \<and> (al < be \<longrightarrow> agrees al be (V p) e)"
    and js: "set js \<subseteq> set (py_range (size_b b))"
  shows "\<exists>me' al'. nq_max_row rec beta i js b me al = Some (b, me', al')
          \<and> (alpha0 < beta \<longrightarrow> max_inv alpha0 beta me al w \<longrightarrow>
               max_inv alpha0 beta me' al'
                 (foldl max w (map V (filter (free_cell b) (map (Pair i) js)))))"
  using js
proof (induction js arbitrary: me al w)
  case Nil
  then show ?case by simp
next
  case (Cons j js)
  have j: "in_range b j" using Cons.prems by (simp add: in_range_iff)
  have t: "empty_and_safe b (i, j) = Some (free_cell b (i, j))"
    by (rule empty_and_safe_wf [OF wf i j])
  have js: "set js \<subseteq> set (py_range (size_b b))" using Cons.prems by simp
  note IH = Cons.IH [OF js]
  show ?case
  proof (cases "free_cell b (i, j)")
    case False
    then show ?thesis using IH [of me al w] by (simp add: t)
  next
    case True
    have cell: "(i, j) \<in> set (all_cells b)" using i j by (simp add: all_cells_in_range)
    obtain e where e: "rec al beta (placed b (i, j)) = Some (e, placed b (i, j))"
      and ag: "al < beta \<longrightarrow> agrees al beta (V (i, j)) e"
      using rec [OF cell True, of al beta] by blast
    let ?rest = "map V (filter (free_cell b) (map (Pair i) js))"
    have step: "alpha0 < beta \<Longrightarrow> max_inv alpha0 beta me al w \<Longrightarrow>
                  max_inv alpha0 beta (max me e) (max al e) (max w (V (i, j)))"
      using ag by (rule max_inv_step [rotated 2])
    show ?thesis
    proof (cases "beta \<le> max al e")
      case brk: True
      have "nq_max_row rec beta i (j # js) b me al = Some (b, max me e, max al e)"
        by (simp add: t True setitem_place [OF wf i j] e setitem_unplace [OF wf i j True] brk)
      moreover have "alpha0 < beta \<Longrightarrow> max_inv alpha0 beta me al w \<Longrightarrow>
          max_inv alpha0 beta (max me e) (max al e) (foldl max (max w (V (i, j))) ?rest)"
        using step brk by (intro max_inv_skip_list)
      ultimately show ?thesis using True by simp
    next
      case go: False
      have "nq_max_row rec beta i (j # js) b me al
              = nq_max_row rec beta i js b (max me e) (max al e)"
        by (simp add: t True setitem_place [OF wf i j] e setitem_unplace [OF wf i j True] go)
      then show ?thesis
        using IH [of "max me e" "max al e" "max w (V (i, j))"] step True by auto
    qed
  qed
qed

lemma nq_max_rows_inv:
  assumes wf: "wf_board b"
    and rec: "\<And>al be p. p \<in> set (all_cells b) \<Longrightarrow> free_cell b p \<Longrightarrow>
                \<exists>e. rec al be (placed b p) = Some (e, placed b p)
                    \<and> (al < be \<longrightarrow> agrees al be (V p) e)"
    and rows: "set rows \<subseteq> set (py_range (size_b b))"
  shows "\<exists>me' al'. nq_max_rows rec beta rows b me al = Some (me', b)
          \<and> (alpha0 < beta \<longrightarrow> max_inv alpha0 beta me al w \<longrightarrow>
               max_inv alpha0 beta me' al'
                 (foldl max w (map V (filter (free_cell b)
                    (List.product rows (py_range (size_b b)))))))"
  using rows
proof (induction rows arbitrary: me al w)
  case Nil
  then show ?case by auto
next
  case (Cons i rows)
  have i: "in_range b i" using Cons.prems by (simp add: in_range_iff)
  have rows: "set rows \<subseteq> set (py_range (size_b b))" using Cons.prems by simp
  let ?w1 = "foldl max w (map V (filter (free_cell b) (map (Pair i) (py_range (size_b b)))))"
  obtain me1 al1 where
    r1: "nq_max_row rec beta i (py_range (size_b b)) b me al = Some (b, me1, al1)"
    and i1: "alpha0 < beta \<longrightarrow> max_inv alpha0 beta me al w \<longrightarrow> max_inv alpha0 beta me1 al1 ?w1"
    using nq_max_row_inv [OF wf i rec subset_refl,
        where beta = beta and me = me and al = al and ?alpha0.0 = alpha0 and w = w]
    by blast
  obtain me2 al2 where
    r2: "nq_max_rows rec beta rows b me1 al1 = Some (me2, b)"
    and i2: "alpha0 < beta \<longrightarrow> max_inv alpha0 beta me1 al1 ?w1 \<longrightarrow>
               max_inv alpha0 beta me2 al2
                 (foldl max ?w1 (map V (filter (free_cell b)
                    (List.product rows (py_range (size_b b))))))"
    using Cons.IH [OF rows, where me = me1 and al = al1 and w = ?w1] by blast
  have "nq_max_rows rec beta (i # rows) b me al = Some (me2, b)"
    by (simp add: r1 r2)
  then show ?case using i1 i2 by auto
qed

lemma nq_min_row_inv:
  assumes wf: "wf_board b" and i: "in_range b i"
    and rec: "\<And>al be p. p \<in> set (all_cells b) \<Longrightarrow> free_cell b p \<Longrightarrow>
                \<exists>e. rec al be (placed b p) = Some (e, placed b p)
                    \<and> (al < be \<longrightarrow> agrees al be (V p) e)"
    and js: "set js \<subseteq> set (py_range (size_b b))"
  shows "\<exists>me' be'. nq_min_row rec alpha i js b me be = Some (b, me', be')
          \<and> (alpha < beta0 \<longrightarrow> min_inv alpha beta0 me be w \<longrightarrow>
               min_inv alpha beta0 me' be'
                 (foldl min w (map V (filter (free_cell b) (map (Pair i) js)))))"
  using js
proof (induction js arbitrary: me be w)
  case Nil
  then show ?case by simp
next
  case (Cons j js)
  have j: "in_range b j" using Cons.prems by (simp add: in_range_iff)
  have t: "empty_and_safe b (i, j) = Some (free_cell b (i, j))"
    by (rule empty_and_safe_wf [OF wf i j])
  have js: "set js \<subseteq> set (py_range (size_b b))" using Cons.prems by simp
  note IH = Cons.IH [OF js]
  show ?case
  proof (cases "free_cell b (i, j)")
    case False
    then show ?thesis using IH [of me be w] by (simp add: t)
  next
    case True
    have cell: "(i, j) \<in> set (all_cells b)" using i j by (simp add: all_cells_in_range)
    obtain e where e: "rec alpha be (placed b (i, j)) = Some (e, placed b (i, j))"
      and ag: "alpha < be \<longrightarrow> agrees alpha be (V (i, j)) e"
      using rec [OF cell True, of alpha be] by blast
    let ?rest = "map V (filter (free_cell b) (map (Pair i) js))"
    have step: "alpha < beta0 \<Longrightarrow> min_inv alpha beta0 me be w \<Longrightarrow>
                  min_inv alpha beta0 (min me e) (min be e) (min w (V (i, j)))"
      using ag by (rule min_inv_step [rotated 2])
    show ?thesis
    proof (cases "min be e \<le> alpha")
      case brk: True
      have "nq_min_row rec alpha i (j # js) b me be = Some (b, min me e, min be e)"
        by (simp add: t True setitem_place [OF wf i j] e setitem_unplace [OF wf i j True] brk)
      moreover have "alpha < beta0 \<Longrightarrow> min_inv alpha beta0 me be w \<Longrightarrow>
          min_inv alpha beta0 (min me e) (min be e) (foldl min (min w (V (i, j))) ?rest)"
        using step brk by (intro min_inv_skip_list)
      ultimately show ?thesis using True by simp
    next
      case go: False
      have "nq_min_row rec alpha i (j # js) b me be
              = nq_min_row rec alpha i js b (min me e) (min be e)"
        by (simp add: t True setitem_place [OF wf i j] e setitem_unplace [OF wf i j True] go)
      then show ?thesis
        using IH [of "min me e" "min be e" "min w (V (i, j))"] step True by auto
    qed
  qed
qed

lemma nq_min_rows_inv:
  assumes wf: "wf_board b"
    and rec: "\<And>al be p. p \<in> set (all_cells b) \<Longrightarrow> free_cell b p \<Longrightarrow>
                \<exists>e. rec al be (placed b p) = Some (e, placed b p)
                    \<and> (al < be \<longrightarrow> agrees al be (V p) e)"
    and rows: "set rows \<subseteq> set (py_range (size_b b))"
  shows "\<exists>me' be'. nq_min_rows rec alpha rows b me be = Some (me', b)
          \<and> (alpha < beta0 \<longrightarrow> min_inv alpha beta0 me be w \<longrightarrow>
               min_inv alpha beta0 me' be'
                 (foldl min w (map V (filter (free_cell b)
                    (List.product rows (py_range (size_b b)))))))"
  using rows
proof (induction rows arbitrary: me be w)
  case Nil
  then show ?case by auto
next
  case (Cons i rows)
  have i: "in_range b i" using Cons.prems by (simp add: in_range_iff)
  have rows: "set rows \<subseteq> set (py_range (size_b b))" using Cons.prems by simp
  let ?w1 = "foldl min w (map V (filter (free_cell b) (map (Pair i) (py_range (size_b b)))))"
  obtain me1 be1 where
    r1: "nq_min_row rec alpha i (py_range (size_b b)) b me be = Some (b, me1, be1)"
    and i1: "alpha < beta0 \<longrightarrow> min_inv alpha beta0 me be w \<longrightarrow> min_inv alpha beta0 me1 be1 ?w1"
    using nq_min_row_inv [OF wf i rec subset_refl,
        where alpha = alpha and me = me and be = be and ?beta0.0 = beta0 and w = w]
    by blast
  obtain me2 be2 where
    r2: "nq_min_rows rec alpha rows b me1 be1 = Some (me2, b)"
    and i2: "alpha < beta0 \<longrightarrow> min_inv alpha beta0 me1 be1 ?w1 \<longrightarrow>
               min_inv alpha beta0 me2 be2
                 (foldl min ?w1 (map V (filter (free_cell b)
                    (List.product rows (py_range (size_b b))))))"
    using Cons.IH [OF rows, where me = me1 and be = be1 and w = ?w1] by blast
  have "nq_min_rows rec alpha (i # rows) b me be = Some (me2, b)"
    by (simp add: r1 r2)
  then show ?case using i1 i2 by auto
qed

lemma size_placed [simp]: "size_b (placed b p) = size_b b"
  by (simp add: placed_def)

lemma searches_agree:
  "wf_board b \<Longrightarrow>
     \<exists>v. minimax ev d mx b = Some (v, b)
        \<and> (\<forall>alpha beta. \<exists>e. nq_minimax ev d alpha beta mx b = Some (e, b)
              \<and> (alpha < beta \<longrightarrow> agrees alpha beta v e))"
proof (induction d arbitrary: b mx)
  case 0
  then show ?case by (simp add: agrees_def)
next
  case (Suc d)
  note wf = Suc.prems
  show ?case
  proof (cases "np_sum (board_b b) = int (size_b b)")
    case True
    then show ?thesis by (simp add: agrees_def)
  next
    case full: False
    define V where "V = (\<lambda>p. fst (the (minimax ev d (\<not> mx) (placed b p))))"
    have child: "minimax ev d (\<not> mx) (placed b p) = Some (V p, placed b p)
        \<and> (\<forall>al be. \<exists>e. nq_minimax ev d al be (\<not> mx) (placed b p) = Some (e, placed b p)
              \<and> (al < be \<longrightarrow> agrees al be (V p) e))" for p
    proof -
      obtain v where v: "minimax ev d (\<not> mx) (placed b p) = Some (v, placed b p)"
        and a: "\<forall>al be. \<exists>e. nq_minimax ev d al be (\<not> mx) (placed b p) = Some (e, placed b p)
              \<and> (al < be \<longrightarrow> agrees al be v e)"
        using Suc.IH [OF wf_placed [OF wf, of p], of "\<not> mx"] by blast
      have "V p = v" by (simp add: V_def v)
      then show ?thesis using v a by simp
    qed
    have recp: "\<exists>e. nq_minimax ev d al be (\<not> mx) (placed b p) = Some (e, placed b p)
                    \<and> (al < be \<longrightarrow> agrees al be (V p) e)" for al be p
      using child [of p] by blast
    have cells: "all_cells b = List.product (py_range (size_b b)) (py_range (size_b b))"
      by (simp add: all_cells_def)
    show ?thesis
    proof (cases mx)
      case True
      let ?W = "foldl max NegInf (map V (filter (free_cell b) (all_cells b)))"
      have mm: "minimax ev (Suc d) mx b = Some (?W, b)"
        using mm_max_loop_value [OF wf subset_refl, of "\<lambda>b'. minimax ev d False b'" V NegInf]
          child True full by simp
      have "\<exists>e. nq_minimax ev (Suc d) alpha beta mx b = Some (e, b)
              \<and> (alpha < beta \<longrightarrow> agrees alpha beta ?W e)" for alpha beta
      proof -
        obtain me' al' where
          r: "nq_max_rows (\<lambda>al be b'. nq_minimax ev d al be False b') beta
                (py_range (size_b b)) b NegInf alpha = Some (me', b)"
          and inv: "alpha < beta \<longrightarrow> max_inv alpha beta NegInf alpha NegInf \<longrightarrow>
                      max_inv alpha beta me' al' ?W"
          using nq_max_rows_inv [OF wf _ subset_refl,
              where rec = "\<lambda>al be b'. nq_minimax ev d al be False b'" and V = V
                and beta = beta and me = NegInf and al = alpha and ?alpha0.0 = alpha
                and w = NegInf]
            recp True unfolding cells by auto
        have "alpha < beta \<Longrightarrow> agrees alpha beta ?W me'"
          using inv max_inv_init [of alpha beta] max_inv_final by blast
        then show ?thesis using r True full by simp
      qed
      then show ?thesis using mm by blast
    next
      case False
      let ?W = "foldl min PosInf (map V (filter (free_cell b) (all_cells b)))"
      have mm: "minimax ev (Suc d) mx b = Some (?W, b)"
        using mm_min_loop_value [OF wf subset_refl, of "\<lambda>b'. minimax ev d True b'" V PosInf]
          child False full by simp
      have "\<exists>e. nq_minimax ev (Suc d) alpha beta mx b = Some (e, b)
              \<and> (alpha < beta \<longrightarrow> agrees alpha beta ?W e)" for alpha beta
      proof -
        obtain me' be' where
          r: "nq_min_rows (\<lambda>al be b'. nq_minimax ev d al be True b') alpha
                (py_range (size_b b)) b PosInf beta = Some (me', b)"
          and inv: "alpha < beta \<longrightarrow> min_inv alpha beta PosInf beta PosInf \<longrightarrow>
                      min_inv alpha beta me' be' ?W"
          using nq_min_rows_inv [OF wf _ subset_refl,
              where rec = "\<lambda>al be b'. nq_minimax ev d al be True b'" and V = V
                and alpha = alpha and me = PosInf and be = beta and ?beta0.0 = beta
                and w = PosInf]
            recp False unfolding cells by auto
        have "alpha < beta \<Longrightarrow> agrees alpha beta ?W me'"
          using inv min_inv_init [of alpha beta] min_inv_final by blast
        then show ?thesis using r False full by simp
      qed
      then show ?thesis using mm by blast
    qed
  qed
qed

section \<open>Properties of the alpha-beta search\<close>

lemma put_queens_left:
  "put (b\<lparr>queens_left := q\<rparr>) i j v = (put b i j v)\<lparr>queens_left := q\<rparr>"
  by (simp add: put_def)

lemma wf_queens_left [simp]: "wf_board (b\<lparr>queens_left := q\<rparr>) = wf_board b"
  by (simp add: wf_board_def)

lemma in_range_queens_left [simp]: "in_range (b\<lparr>queens_left := q\<rparr>) i = in_range b i"
  by (simp add: in_range_def)

lemma wf_moved: "wf_board b \<Longrightarrow> wf_board (moved b p)"
  by (simp add: moved_def wf_placed)

lemma make_move_wf:
  assumes "wf_board b" "in_range b i" "in_range b j"
  shows "make_move b i j = Some (moved b (i, j))"
  by (simp add: make_move_def setitem_place [OF assms] moved_def placed_def)

lemma undo_move_wf:
  assumes "wf_board b" "in_range b i" "in_range b j" "free_cell b (i, j)"
  shows "undo_move (moved b (i, j)) i j = Some b"
proof -
  have z: "board_b b ! nat i ! nat j = 0" using assms(4) by (simp add: free_cell_def)
  have wf: "wf_board (moved b (i, j))" by (rule wf_moved [OF assms(1)])
  have rg: "in_range (moved b (i, j)) i" "in_range (moved b (i, j)) j"
    using assms(2,3) by (simp_all add: moved_def placed_def)
  have "put (moved b (i, j)) i j 0 = b\<lparr>queens_left := queens_left b - 1\<rparr>"
    by (simp add: moved_def placed_def put_queens_left put_put_back [OF z])
  then show ?thesis
    by (simp add: undo_move_def setitem_wf [OF wf rg])
qed

lemma spec_max_loop_value:
  assumes wf: "wf_board b"
    and ps: "\<forall>p \<in> set ps. p \<in> set (all_cells b) \<and> free_cell b p"
    and rec: "\<And>p. p \<in> set ps \<Longrightarrow> rec (moved b p) = Some (V p, moved b p)"
  shows "spec_max_loop rec ps b me = Some (foldl max me (map V ps), b)"
  using ps rec
proof (induction ps arbitrary: me)
  case Nil
  then show ?case by simp
next
  case (Cons p ps)
  obtain i j where ij: "p = (i, j)" by (cases p)
  have rg: "in_range b i" "in_range b j"
    using Cons.prems(1) by (simp_all add: ij all_cells_in_range)
  have fr: "free_cell b (i, j)" using Cons.prems(1) by (simp add: ij)
  have r: "rec (moved b (i, j)) = Some (V (i, j), moved b (i, j))"
    using Cons.prems(2) [of p] by (simp add: ij)
  have IH: "\<And>me. spec_max_loop rec ps b me = Some (foldl max me (map V ps), b)"
    using Cons.IH Cons.prems by simp
  show ?case
    unfolding ij
    by (simp add: make_move_wf [OF wf rg] r undo_move_wf [OF wf rg fr] IH)
qed

lemma spec_min_loop_value:
  assumes wf: "wf_board b"
    and ps: "\<forall>p \<in> set ps. p \<in> set (all_cells b) \<and> free_cell b p"
    and rec: "\<And>p. p \<in> set ps \<Longrightarrow> rec (moved b p) = Some (V p, moved b p)"
  shows "spec_min_loop rec ps b me = Some (foldl min me (map V ps), b)"
  using ps rec
proof (induction ps arbitrary: me)
  case Nil
  then show ?case by simp
next
  case (Cons p ps)
  obtain i j where ij: "p = (i, j)" by (cases p)
  have rg: "in_range b i" "in_range b j"
    using Cons.prems(1) by (simp_all add: ij all_cells_in_range)
  have fr: "free_cell b (i, j)" using Cons.prems(1) by (simp add: ij)
  have r: "rec (moved b (i, j)) = Some (V (i, j), moved b (i, j))"
    using Cons.prems(2) [of p] by (simp add: ij)
  have IH: "\<And>me. spec_min_loop rec ps b me = Some (foldl min me (map V ps), b)"
    using Cons.IH Cons.prems by simp
  show ?case
    unfolding ij
    by (simp add: make_move_wf [OF wf rg] r undo_move_wf [OF wf rg fr] IH)
qed

lemma is_fin_Fin [simp]: "is_fin (Fin x)" "\<not> is_fin NegInf" "\<not> is_fin PosInf"
  by (simp_all add: is_fin_def)

lemma is_fin_max: "is_fin e \<Longrightarrow> a \<noteq> PosInf \<Longrightarrow> is_fin (max a e)"
  by (cases a; cases e) (simp_all add: max_def)

lemma is_fin_min: "is_fin e \<Longrightarrow> a \<noteq> NegInf \<Longrightarrow> is_fin (min a e)"
  by (cases a; cases e) (simp_all add: min_def)

lemma is_fin_neq: "is_fin a \<Longrightarrow> a \<noteq> PosInf \<and> a \<noteq> NegInf"
  by (cases a) simp_all

lemma is_fin_foldl_max: "is_fin a \<Longrightarrow> \<forall>x \<in> set xs. is_fin x \<Longrightarrow> is_fin (foldl max a xs)"
proof (induction xs arbitrary: a)
  case Nil
  then show ?case by simp
next
  case (Cons x xs)
  have "is_fin (max a x)"
    using Cons.prems is_fin_neq [of a] by (intro is_fin_max) simp_all
  then show ?case using Cons by simp
qed

lemma is_fin_foldl_min: "is_fin a \<Longrightarrow> \<forall>x \<in> set xs. is_fin x \<Longrightarrow> is_fin (foldl min a xs)"
proof (induction xs arbitrary: a)
  case Nil
  then show ?case by simp
next
  case (Cons x xs)
  have "is_fin (min a x)"
    using Cons.prems is_fin_neq [of a] by (intro is_fin_min) simp_all
  then show ?case using Cons by simp
qed

lemma ab_max_loop_inv:
  assumes wf: "wf_board b"
    and rec: "\<And>al be p. p \<in> set (all_cells b) \<Longrightarrow> free_cell b p \<Longrightarrow>
                \<exists>e. rec al be (moved b p) = Some (e, moved b p) \<and> is_fin e
                    \<and> (al < be \<longrightarrow> agrees al be (V p) e)"
    and ps: "\<forall>p \<in> set ps. p \<in> set (all_cells b) \<and> free_cell b p"
  shows "\<exists>me' al'. ab_max_loop rec beta ps b me al = Some (me', b)
          \<and> (me = NegInf \<and> ps \<noteq> [] \<or> is_fin me \<longrightarrow> is_fin me')
          \<and> (alpha0 < beta \<longrightarrow> max_inv alpha0 beta me al w \<longrightarrow>
               max_inv alpha0 beta me' al' (foldl max w (map V ps)))"
  using ps
proof (induction ps arbitrary: me al w)
  case Nil
  then show ?case by auto
next
  case (Cons p ps)
  obtain i j where ij: "p = (i, j)" by (cases p)
  have cell: "(i, j) \<in> set (all_cells b)" and fr: "free_cell b (i, j)"
    using Cons.prems by (simp_all add: ij)
  have rg: "in_range b i" "in_range b j"
    using cell by (simp_all add: all_cells_in_range)
  have ps: "\<forall>p \<in> set ps. p \<in> set (all_cells b) \<and> free_cell b p" using Cons.prems by simp
  note IH = Cons.IH [OF ps]
  obtain e where e: "rec al beta (moved b (i, j)) = Some (e, moved b (i, j))"
    and fin: "is_fin e"
    and ag: "al < beta \<longrightarrow> agrees al beta (V (i, j)) e"
    using rec [OF cell fr, of al beta] by blast
  have step: "alpha0 < beta \<Longrightarrow> max_inv alpha0 beta me al w \<Longrightarrow>
                max_inv alpha0 beta (max me e) (max al e) (max w (V (i, j)))"
    using ag by (rule max_inv_step [rotated 2])
  have finm: "me = NegInf \<or> is_fin me \<Longrightarrow> is_fin (max me e)"
    using fin is_fin_max [OF fin, of me] by (auto dest: is_fin_neq)
  show ?case
  proof (cases "beta \<le> max al e")
    case brk: True
    have "ab_max_loop rec beta (p # ps) b me al = Some (max me e, b)"
      unfolding ij
      by (simp add: make_move_wf [OF wf rg] e undo_move_wf [OF wf rg fr] brk)
    moreover have "alpha0 < beta \<Longrightarrow> max_inv alpha0 beta me al w \<Longrightarrow>
        max_inv alpha0 beta (max me e) (max al e) (foldl max (max w (V (i, j))) (map V ps))"
      using step brk by (intro max_inv_skip_list)
    ultimately show ?thesis using finm by (auto simp: ij)
  next
    case go: False
    have "ab_max_loop rec beta (p # ps) b me al
            = ab_max_loop rec beta ps b (max me e) (max al e)"
      unfolding ij
      by (simp add: make_move_wf [OF wf rg] e undo_move_wf [OF wf rg fr] go)
    then show ?thesis
      using IH [of "max me e" "max al e" "max w (V (i, j))"] step finm
      by (auto simp: ij)
  qed
qed

lemma ab_min_loop_inv:
  assumes wf: "wf_board b"
    and rec: "\<And>al be p. p \<in> set (all_cells b) \<Longrightarrow> free_cell b p \<Longrightarrow>
                \<exists>e. rec al be (moved b p) = Some (e, moved b p) \<and> is_fin e
                    \<and> (al < be \<longrightarrow> agrees al be (V p) e)"
    and ps: "\<forall>p \<in> set ps. p \<in> set (all_cells b) \<and> free_cell b p"
  shows "\<exists>me' be'. ab_min_loop rec alpha ps b me be = Some (me', b)
          \<and> (me = PosInf \<and> ps \<noteq> [] \<or> is_fin me \<longrightarrow> is_fin me')
          \<and> (alpha < beta0 \<longrightarrow> min_inv alpha beta0 me be w \<longrightarrow>
               min_inv alpha beta0 me' be' (foldl min w (map V ps)))"
  using ps
proof (induction ps arbitrary: me be w)
  case Nil
  then show ?case by auto
next
  case (Cons p ps)
  obtain i j where ij: "p = (i, j)" by (cases p)
  have cell: "(i, j) \<in> set (all_cells b)" and fr: "free_cell b (i, j)"
    using Cons.prems by (simp_all add: ij)
  have rg: "in_range b i" "in_range b j"
    using cell by (simp_all add: all_cells_in_range)
  have ps: "\<forall>p \<in> set ps. p \<in> set (all_cells b) \<and> free_cell b p" using Cons.prems by simp
  note IH = Cons.IH [OF ps]
  obtain e where e: "rec alpha be (moved b (i, j)) = Some (e, moved b (i, j))"
    and fin: "is_fin e"
    and ag: "alpha < be \<longrightarrow> agrees alpha be (V (i, j)) e"
    using rec [OF cell fr, of alpha be] by blast
  have step: "alpha < beta0 \<Longrightarrow> min_inv alpha beta0 me be w \<Longrightarrow>
                min_inv alpha beta0 (min me e) (min be e) (min w (V (i, j)))"
    using ag by (rule min_inv_step [rotated 2])
  have finm: "me = PosInf \<or> is_fin me \<Longrightarrow> is_fin (min me e)"
    using fin is_fin_min [OF fin, of me] by (auto dest: is_fin_neq)
  show ?case
  proof (cases "min be e \<le> alpha")
    case brk: True
    have "ab_min_loop rec alpha (p # ps) b me be = Some (min me e, b)"
      unfolding ij
      by (simp add: make_move_wf [OF wf rg] e undo_move_wf [OF wf rg fr] brk)
    moreover have "alpha < beta0 \<Longrightarrow> min_inv alpha beta0 me be w \<Longrightarrow>
        min_inv alpha beta0 (min me e) (min be e) (foldl min (min w (V (i, j))) (map V ps))"
      using step brk by (intro min_inv_skip_list)
    ultimately show ?thesis using finm by (auto simp: ij)
  next
    case go: False
    have "ab_min_loop rec alpha (p # ps) b me be
            = ab_min_loop rec alpha ps b (min me e) (min be e)"
      unfolding ij
      by (simp add: make_move_wf [OF wf rg] e undo_move_wf [OF wf rg fr] go)
    then show ?thesis
      using IH [of "min me e" "min be e" "min w (V (i, j))"] step finm
      by (auto simp: ij)
  qed
qed

lemma eval_leaf_wf:
  assumes "wf_board b"
  shows "\<exists>x. eval_leaf b = Some (Fin x, b)"
  by (simp add: eval_leaf_def evaluate_wf [OF assms])

lemma agrees_refl: "agrees alpha beta v v"
  by (auto simp: agrees_def)

lemma alpha_beta_agrees:
  "wf_board b \<Longrightarrow>
     \<exists>v. spec_minimax d mx b = Some (v, b) \<and> is_fin v
        \<and> (\<forall>alpha beta. \<exists>e. alpha_beta_search d alpha beta mx b = Some (e, b) \<and> is_fin e
              \<and> (alpha < beta \<longrightarrow> agrees alpha beta v e))"
proof (induction d arbitrary: b mx)
  case 0
  then show ?case using eval_leaf_wf [of b] by (auto simp: agrees_refl)
next
  case (Suc d)
  note wf = Suc.prems
  let ?sp = "filter (free_cell b) (all_cells b)"
  have sp: "get_safe_positions b = Some ?sp" by (rule get_safe_positions_wf [OF wf])
  show ?case
  proof (cases "is_game_over b \<or> ?sp = []")
    case True
    then show ?thesis using eval_leaf_wf [OF wf] by (auto simp: sp agrees_refl)
  next
    case inner: False
    define V where "V = (\<lambda>p. fst (the (spec_minimax d (\<not> mx) (moved b p))))"
    have child: "spec_minimax d (\<not> mx) (moved b p) = Some (V p, moved b p) \<and> is_fin (V p)
        \<and> (\<forall>al be. \<exists>e. alpha_beta_search d al be (\<not> mx) (moved b p) = Some (e, moved b p)
              \<and> is_fin e \<and> (al < be \<longrightarrow> agrees al be (V p) e))" for p
    proof -
      obtain v where v: "spec_minimax d (\<not> mx) (moved b p) = Some (v, moved b p)"
        and f: "is_fin v"
        and a: "\<forall>al be. \<exists>e. alpha_beta_search d al be (\<not> mx) (moved b p) = Some (e, moved b p)
              \<and> is_fin e \<and> (al < be \<longrightarrow> agrees al be v e)"
        using Suc.IH [OF wf_moved [OF wf, of p], of "\<not> mx"] by blast
      have "V p = v" by (simp add: V_def v)
      then show ?thesis using v f a by simp
    qed
    have recp: "\<exists>e. alpha_beta_search d al be (\<not> mx) (moved b p) = Some (e, moved b p)
                    \<and> is_fin e \<and> (al < be \<longrightarrow> agrees al be (V p) e)" for al be p
      using child [of p] by blast
    have all: "\<forall>p \<in> set ?sp. p \<in> set (all_cells b) \<and> free_cell b p" by simp
    have finV: "\<forall>x \<in> set (map V ?sp). is_fin x" using child by simp
    obtain p0 ps0 where cons: "?sp = p0 # ps0" using inner by (cases ?sp) auto
    show ?thesis
    proof (cases mx)
      case True
      let ?W = "foldl max NegInf (map V ?sp)"
      have mm: "spec_minimax (Suc d) mx b = Some (?W, b)"
        using spec_max_loop_value [OF wf all, of "\<lambda>b'. spec_minimax d False b'" V NegInf]
          child True inner by (simp add: sp)
      have "?W = foldl max (V p0) (map V ps0)" by (simp add: cons)
      moreover have "is_fin (foldl max (V p0) (map V ps0))"
        using finV unfolding cons by (intro is_fin_foldl_max) simp_all
      ultimately have finW: "is_fin ?W" by simp
      have "\<exists>e. alpha_beta_search (Suc d) alpha beta mx b = Some (e, b) \<and> is_fin e
              \<and> (alpha < beta \<longrightarrow> agrees alpha beta ?W e)" for alpha beta
      proof -
        obtain me' al' where
          r: "ab_max_loop (\<lambda>al be b'. alpha_beta_search d al be False b') beta ?sp b
                NegInf alpha = Some (me', b)"
          and f: "is_fin me'"
          and inv: "alpha < beta \<longrightarrow> max_inv alpha beta NegInf alpha NegInf \<longrightarrow>
                      max_inv alpha beta me' al' ?W"
          using ab_max_loop_inv [OF wf _ all,
              where rec = "\<lambda>al be b'. alpha_beta_search d al be False b'" and V = V
                and beta = beta and me = NegInf and al = alpha and ?alpha0.0 = alpha
                and w = NegInf]
            recp True inner by auto
        have "alpha < beta \<Longrightarrow> agrees alpha beta ?W me'"
          using inv max_inv_init [of alpha beta] max_inv_final by blast
        then show ?thesis using r f True inner by (simp add: sp)
      qed
      then show ?thesis using mm finW by blast
    next
      case False
      let ?W = "foldl min PosInf (map V ?sp)"
      have mm: "spec_minimax (Suc d) mx b = Some (?W, b)"
        using spec_min_loop_value [OF wf all, of "\<lambda>b'. spec_minimax d True b'" V PosInf]
          child False inner by (simp add: sp)
      have "?W = foldl min (V p0) (map V ps0)" by (simp add: cons)
      moreover have "is_fin (foldl min (V p0) (map V ps0))"
        using finV unfolding cons by (intro is_fin_foldl_min) simp_all
      ultimately have finW: "is_fin ?W" by simp
      have "\<exists>e. alpha_beta_search (Suc d) alpha beta mx b = Some (e, b) \<and> is_fin e
              \<and> (alpha < beta \<longrightarrow> agrees alpha beta ?W e)" for alpha beta
      proof -
        obtain me' be' where
          r: "ab_min_loop (\<lambda>al be b'. alpha_beta_search d al be True b') alpha ?sp b
                PosInf beta = Some (me', b)"
          and f: "is_fin me'"
          and inv: "alpha < beta \<longrightarrow> min_inv alpha beta PosInf beta PosInf \<longrightarrow>
                      min_inv alpha beta me' be' ?W"
          using ab_min_loop_inv [OF wf _ all,
              where rec = "\<lambda>al be b'. alpha_beta_search d al be True b'" and V = V
                and alpha = alpha and me = PosInf and be = beta and ?beta0.0 = beta
                and w = PosInf]
            recp False inner by auto
        have "alpha < beta \<Longrightarrow> agrees alpha beta ?W me'"
          using inv min_inv_init [of alpha beta] min_inv_final by blast
        then show ?thesis using r f False inner by (simp add: sp)
      qed
      then show ?thesis using mm finW by blast
    qed
  qed
qed

lemma agrees_full_window: "agrees NegInf PosInf v e \<Longrightarrow> e = v"
  by (cases e; cases v) (auto simp: agrees_def less_score_def)

section \<open>The claims about the searches\<close>

text \<open>
  Claim C1.  For every board, depth and maximizing flag, the pruned search called with
  the full window \<open>(-\<infinity>, +\<infinity>)\<close> returns and gives the score of the unpruned search at the
  same depth, with the same flag, on the same board and with the same evaluation function:
  the pruned \<^verbatim>\<open>minimax\<close> of nqueens/minimax.py against the unpruned \<^verbatim>\<open>minimax\<close> of
  minimax/minimax.py, for any \<^verbatim>\<open>evaluate\<close> method \<open>ev\<close>, and \<^verbatim>\<open>alpha_beta_search\<close> of
  alphabeta/alphabeta.py against the unpruned search of the specification.
\<close>

theorem pruning_preserves_value:
  assumes "wf_board b"
  shows "(\<exists>v. nq_minimax ev d NegInf PosInf mx b = Some (v, b)
             \<and> minimax ev d mx b = Some (v, b))
       \<and> (\<exists>v. alpha_beta_search d NegInf PosInf mx b = Some (v, b)
             \<and> spec_minimax d mx b = Some (v, b))"
proof -
  have lt: "NegInf < PosInf" by (simp add: less_score_def)
  obtain v e where "minimax ev d mx b = Some (v, b)"
    "nq_minimax ev d NegInf PosInf mx b = Some (e, b)" "agrees NegInf PosInf v e"
    using searches_agree [OF assms, of ev d mx] lt by blast
  moreover obtain v' e' where "spec_minimax d mx b = Some (v', b)"
    "alpha_beta_search d NegInf PosInf mx b = Some (e', b)" "agrees NegInf PosInf v' e'"
    using alpha_beta_agrees [OF assms, of d mx] lt by blast
  ultimately show ?thesis
    by (auto dest: agrees_full_window)
qed

theorem pruning_preserves_value_witness:
  "wf_board corner4
   \<and> minimax evaluate_mm 2 True corner4 = Some (Fin 0, corner4)
   \<and> nq_minimax evaluate_mm 2 NegInf PosInf True corner4 = Some (Fin 0, corner4)
   \<and> spec_minimax 2 True corner4 = Some (Fin (- 1000), corner4)
   \<and> alpha_beta_search 2 NegInf PosInf True corner4 = Some (Fin (- 1000), corner4)"
proof -
  have m: "minimax evaluate_mm 2 True corner4 = Some (Fin 0, corner4)"
    by code_simp
  have s: "spec_minimax 2 True corner4 = Some (Fin (- 1000), corner4)"
    by code_simp
  show ?thesis
    using pruning_preserves_value [OF wf_corner4, of evaluate_mm 2 True] m s wf_corner4
    by simp
qed

text \<open>
  Claim C2.  For every board, depth, window and maximizing flag, each of the three
  recursive searches returns, and the board after the call (the array and
  \<^verbatim>\<open>queens_left\<close>) is the board before the call.
\<close>

theorem search_restores_board:
  assumes "wf_board b"
  shows "(\<exists>v. alpha_beta_search d alpha beta mx b = Some (v, b))
       \<and> (\<exists>v. minimax ev d mx b = Some (v, b))
       \<and> (\<exists>v. nq_minimax ev d alpha beta mx b = Some (v, b))"
  using searches_agree [OF assms, of ev d mx] alpha_beta_agrees [OF assms, of d mx]
  by blast

theorem search_restores_board_witness:
  "wf_board corner4
   \<and> alpha_beta_search 2 (Fin 0) (Fin 5) True corner4 = Some (Fin (- 1000), corner4)
   \<and> (\<exists>v. minimax evaluate_mm 2 False corner4 = Some (v, corner4))
   \<and> (\<exists>v. nq_minimax evaluate_mm 2 (Fin 0) (Fin 5) False corner4 = Some (v, corner4))"
proof -
  have "map_option fst (alpha_beta_search 2 (Fin 0) (Fin 5) True corner4) = Some (Fin (- 1000))"
    by code_simp
  then show ?thesis
    using search_restores_board [OF wf_corner4, of 2 "Fin 0" "Fin 5" True evaluate_mm]
      search_restores_board [OF wf_corner4, of 2 "Fin 0" "Fin 5" False evaluate_mm]
      wf_corner4
    by auto
qed

lemma sorted_py_range: "sorted_wrt (<) (py_range n)"
  by (simp add: py_range_def sorted_wrt_map)

lemma sorted_product:
  assumes "sorted_wrt (<) xs" "sorted_wrt (<) ys"
  shows "sorted_wrt row_major_less (List.product xs ys)"
  using assms(1)
proof (induction xs)
  case Nil
  then show ?case by simp
next
  case (Cons x xs)
  have "sorted_wrt row_major_less (map (Pair x) ys)"
    using assms(2) by (simp add: sorted_wrt_map row_major_less_def)
  moreover have "sorted_wrt row_major_less (List.product xs ys)"
    using Cons by simp
  moreover have "\<forall>p \<in> set (map (Pair x) ys). \<forall>q \<in> set (List.product xs ys). row_major_less p q"
    using Cons.prems by (auto simp: row_major_less_def)
  ultimately show ?case
    by (simp add: sorted_wrt_append)
qed

lemma sorted_safe_cells: "sorted_wrt row_major_less (filter (free_cell b) (all_cells b))"
  unfolding all_cells_def
  by (intro sorted_wrt_filter sorted_product sorted_py_range)

lemma free_cell_checked:
  assumes "wf_board b"
  shows "(i, j) \<in> set (filter (free_cell b) (all_cells b)) \<longleftrightarrow>
           in_range b i \<and> in_range b j \<and> getitem b i j = Some 0 \<and> is_safe b i j = Some True"
  using getitem_wf [OF assms, of i j] is_safe_wf [OF assms, of i j]
  by (auto simp: all_cells_in_range free_cell_def)

lemma keep_best_pair:
  "keep_best S (bs, bm) p = (if bs < S p then (S p, Some p) else (bs, bm))"
  by (simp add: keep_best_def)

lemma best_move_loop_fold:
  assumes wf: "wf_board b"
    and ps: "\<forall>p \<in> set ps. p \<in> set (all_cells b) \<and> free_cell b p"
    and rec: "\<And>p. p \<in> set ps \<Longrightarrow>
                alpha_beta_search md NegInf PosInf False (moved b p) = Some (S p, moved b p)"
  shows "best_move_loop md ps b bs bm = Some (snd (foldl (keep_best S) (bs, bm) ps), b)"
  using ps rec
proof (induction ps arbitrary: bs bm)
  case Nil
  then show ?case by simp
next
  case (Cons p ps)
  obtain i j where ij: "p = (i, j)" by (cases p)
  have rg: "in_range b i" "in_range b j"
    using Cons.prems(1) by (simp_all add: ij all_cells_in_range)
  have fr: "free_cell b (i, j)" using Cons.prems(1) by (simp add: ij)
  have r: "alpha_beta_search md NegInf PosInf False (moved b (i, j))
             = Some (S (i, j), moved b (i, j))"
    using Cons.prems(2) [of p] by (simp add: ij)
  have IH: "\<And>bs bm. best_move_loop md ps b bs bm
              = Some (snd (foldl (keep_best S) (bs, bm) ps), b)"
    using Cons.IH Cons.prems by simp
  show ?case
    unfolding ij
    by (simp add: make_move_wf [OF wf rg] r undo_move_wf [OF wf rg fr] IH keep_best_pair)
qed

lemma keep_best_first_max:
  assumes "ps \<noteq> []" "\<forall>p \<in> set ps. NegInf < S p"
  shows "\<exists>k < length ps.
           foldl (keep_best S) (NegInf, None) ps = (S (ps ! k), Some (ps ! k))
           \<and> (\<forall>m < length ps. S (ps ! m) \<le> S (ps ! k))
           \<and> (\<forall>m < k. S (ps ! m) < S (ps ! k))"
  using assms
proof (induction ps rule: rev_induct)
  case Nil
  then show ?case by simp
next
  case (snoc p ps)
  show ?case
  proof (cases "ps = []")
    case True
    then show ?thesis using snoc.prems by (simp add: keep_best_pair)
  next
    case False
    then obtain k where k: "k < length ps"
      and f: "foldl (keep_best S) (NegInf, None) ps = (S (ps ! k), Some (ps ! k))"
      and mx: "\<forall>m < length ps. S (ps ! m) \<le> S (ps ! k)"
      and fst: "\<forall>m < k. S (ps ! m) < S (ps ! k)"
      using snoc by auto
    show ?thesis
    proof (cases "S (ps ! k) < S p")
      case True
      have "foldl (keep_best S) (NegInf, None) (ps @ [p]) = (S p, Some p)"
        using True by (simp add: f keep_best_pair)
      moreover have "\<forall>m < length (ps @ [p]). S ((ps @ [p]) ! m) \<le> S p"
        using mx True by (auto simp: nth_append less_Suc_eq)
      moreover have "\<forall>m < length ps. S ((ps @ [p]) ! m) < S p"
        using mx True by (auto simp: nth_append)
      ultimately show ?thesis
        by (intro exI [of _ "length ps"]) simp
    next
      case False
      have "foldl (keep_best S) (NegInf, None) (ps @ [p]) = (S (ps ! k), Some (ps ! k))"
        using False by (simp add: f keep_best_pair)
      moreover have "\<forall>m < length (ps @ [p]). S ((ps @ [p]) ! m) \<le> S (ps ! k)"
        using mx False by (auto simp: nth_append less_Suc_eq)
      moreover have "\<forall>m < k. S ((ps @ [p]) ! m) < S (ps ! k)"
        using fst k by (auto simp: nth_append)
      ultimately show ?thesis
        using k by (intro exI [of _ k]) (simp add: nth_append)
    qed
  qed
qed

lemma best_move_scores:
  assumes wf: "wf_board b"
  shows "\<exists>S. \<forall>p \<in> set (filter (free_cell b) (all_cells b)).
           make_move b (fst p) (snd p) = Some (moved b p)
           \<and> alpha_beta_search md NegInf PosInf False (moved b p) = Some (S p, moved b p)
           \<and> NegInf < S p"
proof -
  define S where "S = (\<lambda>p. fst (the (alpha_beta_search md NegInf PosInf False (moved b p))))"
  have "make_move b (fst p) (snd p) = Some (moved b p)
        \<and> alpha_beta_search md NegInf PosInf False (moved b p) = Some (S p, moved b p)
        \<and> NegInf < S p" if p: "p \<in> set (filter (free_cell b) (all_cells b))" for p
  proof -
    obtain i j where ij: "p = (i, j)" by (cases p)
    have rg: "in_range b i" "in_range b j"
      using p by (simp_all add: ij all_cells_in_range)
    obtain e where e: "alpha_beta_search md NegInf PosInf False (moved b p) = Some (e, moved b p)"
      and f: "is_fin e"
      using alpha_beta_agrees [OF wf_moved [OF wf, of p], of md False] by blast
    have "S p = e" by (simp add: S_def e)
    moreover have "NegInf < e" using f by (cases e) (simp_all add: less_score_def)
    ultimately show ?thesis
      using e make_move_wf [OF wf rg] by (simp add: ij)
  qed
  then show ?thesis by blast
qed

lemma alphabeta_best_move:
  assumes wf: "wf_board b"
  shows "\<exists>r. get_best_move md b = Some (r, b)
           \<and> (r = None \<longleftrightarrow> get_safe_positions b = Some [])
           \<and> (\<forall>m. r = Some m \<longrightarrow> (\<exists>ps. get_safe_positions b = Some ps \<and> m \<in> set ps))"
proof -
  let ?sp = "filter (free_cell b) (all_cells b)"
  have sp: "get_safe_positions b = Some ?sp" by (rule get_safe_positions_wf [OF wf])
  show ?thesis
  proof (cases "?sp = []")
    case True
    then show ?thesis by (simp add: get_best_move_def sp)
  next
    case False
    obtain S where S: "\<forall>p \<in> set ?sp.
           make_move b (fst p) (snd p) = Some (moved b p)
           \<and> alpha_beta_search md NegInf PosInf False (moved b p) = Some (S p, moved b p)
           \<and> NegInf < S p"
      using best_move_scores [OF wf, of md] by blast
    have all: "\<forall>p \<in> set ?sp. p \<in> set (all_cells b) \<and> free_cell b p" by simp
    have loop: "best_move_loop md ?sp b NegInf None
                  = Some (snd (foldl (keep_best S) (NegInf, None) ?sp), b)"
      using S by (intro best_move_loop_fold [OF wf all]) blast
    obtain k where k: "k < length ?sp"
      and f: "foldl (keep_best S) (NegInf, None) ?sp = (S (?sp ! k), Some (?sp ! k))"
      using keep_best_first_max [OF False, of S] S by blast
    have "get_best_move md b = Some (Some (?sp ! k), b)"
      using False by (simp add: get_best_move_def sp loop f)
    moreover have "?sp ! k \<in> set ?sp" using k by (rule nth_mem)
    ultimately show ?thesis using False sp by auto
  qed
qed

text \<open>
  Claim C6.  \<^verbatim>\<open>get_safe_positions\<close> returns exactly the empty cells for which
  \<^verbatim>\<open>is_safe\<close> holds, in strictly ascending row-major order; and when there is a safe
  position, \<^verbatim>\<open>get_best_move\<close> of the alpha-beta engine returns the earliest candidate of
  that list among those with the greatest score, the score of a candidate being what
  \<^verbatim>\<open>alpha_beta_search(max_depth, -inf, inf, False)\<close> returns on the board after the move.
\<close>

theorem safe_positions_order_and_first_best:
  assumes wf: "wf_board b"
  shows "\<exists>ps. get_safe_positions b = Some ps
         \<and> sorted_wrt row_major_less ps
         \<and> (\<forall>i j. (i, j) \<in> set ps \<longleftrightarrow>
               in_range b i \<and> in_range b j \<and> getitem b i j = Some 0 \<and> is_safe b i j = Some True)
         \<and> (ps \<noteq> [] \<longrightarrow>
              (\<exists>S. \<exists>k < length ps.
                 (\<forall>m < length ps.
                    make_move b (fst (ps ! m)) (snd (ps ! m)) = Some (moved b (ps ! m))
                    \<and> alpha_beta_search max_depth NegInf PosInf False (moved b (ps ! m))
                        = Some (S (ps ! m), moved b (ps ! m)))
                 \<and> get_best_move max_depth b = Some (Some (ps ! k), b)
                 \<and> (\<forall>m < length ps. S (ps ! m) \<le> S (ps ! k))
                 \<and> (\<forall>m < k. S (ps ! m) < S (ps ! k))))"
proof -
  let ?sp = "filter (free_cell b) (all_cells b)"
  have sp: "get_safe_positions b = Some ?sp" by (rule get_safe_positions_wf [OF wf])
  have mem: "\<forall>i j. (i, j) \<in> set ?sp \<longleftrightarrow>
               in_range b i \<and> in_range b j \<and> getitem b i j = Some 0 \<and> is_safe b i j = Some True"
    using free_cell_checked [OF wf] by blast
  have best: "\<exists>S. \<exists>k < length ?sp.
                 (\<forall>m < length ?sp.
                    make_move b (fst (?sp ! m)) (snd (?sp ! m)) = Some (moved b (?sp ! m))
                    \<and> alpha_beta_search max_depth NegInf PosInf False (moved b (?sp ! m))
                        = Some (S (?sp ! m), moved b (?sp ! m)))
                 \<and> get_best_move max_depth b = Some (Some (?sp ! k), b)
                 \<and> (\<forall>m < length ?sp. S (?sp ! m) \<le> S (?sp ! k))
                 \<and> (\<forall>m < k. S (?sp ! m) < S (?sp ! k))" if ne: "?sp \<noteq> []"
  proof -
    obtain S where S: "\<forall>p \<in> set ?sp.
           make_move b (fst p) (snd p) = Some (moved b p)
           \<and> alpha_beta_search max_depth NegInf PosInf False (moved b p) = Some (S p, moved b p)
           \<and> NegInf < S p"
      using best_move_scores [OF wf, of max_depth] by blast
    have all: "\<forall>p \<in> set ?sp. p \<in> set (all_cells b) \<and> free_cell b p" by simp
    have loop: "best_move_loop max_depth ?sp b NegInf None
                  = Some (snd (foldl (keep_best S) (NegInf, None) ?sp), b)"
      using S by (intro best_move_loop_fold [OF wf all]) blast
    obtain k where k: "k < length ?sp"
      and f: "foldl (keep_best S) (NegInf, None) ?sp = (S (?sp ! k), Some (?sp ! k))"
      and mx: "\<forall>m < length ?sp. S (?sp ! m) \<le> S (?sp ! k)"
      and fs: "\<forall>m < k. S (?sp ! m) < S (?sp ! k)"
      using keep_best_first_max [OF ne, of S] S by blast
    have g: "get_best_move max_depth b = Some (Some (?sp ! k), b)"
      using ne by (simp add: get_best_move_def sp loop f)
    have "\<forall>m < length ?sp.
            make_move b (fst (?sp ! m)) (snd (?sp ! m)) = Some (moved b (?sp ! m))
            \<and> alpha_beta_search max_depth NegInf PosInf False (moved b (?sp ! m))
                = Some (S (?sp ! m), moved b (?sp ! m))"
      using S nth_mem by blast
    then show ?thesis using k g mx fs by blast
  qed
  show ?thesis
    using sp sorted_safe_cells [of b] mem best by blast
qed

theorem safe_positions_order_and_first_best_witness:
  "wf_board corner4
   \<and> get_safe_positions corner4 = Some [(1, 2), (1, 3), (2, 1), (2, 3), (3, 1), (3, 2)]
   \<and> sorted_wrt row_major_less [(1, 2), (1, 3), (2, 1), (2, 3), (3, 1), (3, 2)]
   \<and> get_best_move 1 corner4 = Some (Some (1, 2), corner4)"
proof -
  have g: "get_safe_positions corner4 = Some [(1, 2), (1, 3), (2, 1), (2, 3), (3, 1), (3, 2)]"
    by code_simp
  have m: "get_best_move 1 corner4 = Some (Some (1, 2), corner4)"
    by code_simp
  show ?thesis
    using safe_positions_order_and_first_best [OF wf_corner4, of 1] g m wf_corner4
    by auto
qed

text \<open>
  Claim C3, at a dead end.  On the 2-by-2 board with a queen at \<open>(0, 0)\<close> no cell is
  safe and one queen is still to be placed.  At depth 1 the alpha-beta engine returns
  the evaluation of the board; the unpruned and the pruned minimax return the infinity
  their running optimum started with, where \<^verbatim>\<open>evaluate\<close> gives 0.
\<close>

theorem dead_end_minimax_returns_infinity:
  "get_safe_positions dead2 = Some [] \<and> queens_left dead2 = 1 \<and> \<not> is_game_over dead2
   \<and> \<not> is_game_over_mm dead2 \<and> evaluate_mm dead2 = 0 \<and> evaluate dead2 = Some (- 1000)
   \<and> minimax evaluate_mm 1 True dead2 = Some (NegInf, dead2)
   \<and> minimax evaluate_mm 1 False dead2 = Some (PosInf, dead2)
   \<and> nq_minimax evaluate_mm 1 NegInf PosInf True dead2 = Some (NegInf, dead2)
   \<and> nq_minimax evaluate_mm 1 NegInf PosInf False dead2 = Some (PosInf, dead2)
   \<and> alpha_beta_search 1 NegInf PosInf True dead2 = Some (Fin (- 1000), dead2)"
  by code_simp

text \<open>
  Claim C5, at the corner board.  Six cells are safe, and \<^verbatim>\<open>get_best_move\<close> of
  minimax/minimax.py returns \<^verbatim>\<open>None\<close>: every candidate scores \<open>-\<infinity>\<close>, which is not
  greater than the initial best score \<open>-\<infinity>\<close>.  The alpha-beta engine returns a move.
\<close>

theorem minimax_best_move_none_despite_safe_cells:
  "get_safe_positions corner4 = Some [(1, 2), (1, 3), (2, 1), (2, 3), (3, 1), (3, 2)]
   \<and> mm_get_best_move evaluate_mm corner4 = Some (None, corner4)
   \<and> get_best_move 4 corner4 = Some (Some (1, 2), corner4)"
  by code_simp

section \<open>The occupancy counter\<close>

lemma count_list_update:
  "j < length xs \<Longrightarrow>
     int (count_list (xs[j := v]) a)
       = int (count_list xs a) - (if xs ! j = a then 1 else 0) + (if v = a then 1 else 0)"
proof (induction xs arbitrary: j)
  case Nil
  then show ?case by simp
next
  case (Cons x xs)
  show ?case
  proof (cases j)
    case 0
    then show ?thesis by simp
  next
    case (Suc k)
    then have k: "k < length xs" using Cons.prems by simp
    have "int (count_list ((x # xs)[j := v]) a)
            = (if x = a then 1 else 0) + int (count_list (xs[k := v]) a)"
      unfolding Suc by simp
    also have "\<dots> = (if x = a then 1 else 0)
            + (int (count_list xs a) - (if xs ! k = a then 1 else 0) + (if v = a then 1 else 0))"
      by (simp only: Cons.IH [OF k])
    also have "\<dots> = int (count_list (x # xs) a) - (if (x # xs) ! j = a then 1 else 0)
            + (if v = a then 1 else 0)"
      unfolding Suc by simp
    finally show ?thesis .
  qed
qed

lemma sum_list_map_update:
  fixes f :: "'a \<Rightarrow> int"
  shows "i < length g \<Longrightarrow> sum_list (map f (g[i := r])) = sum_list (map f g) - f (g ! i) + f r"
proof (induction g arbitrary: i)
  case Nil
  then show ?case by simp
next
  case (Cons x g)
  then show ?case by (cases i) auto
qed

lemma occupied_put:
  assumes "wf_board b" "in_range b i" "in_range b j"
  shows "occupied (put b i j v)
           = occupied b - (if board_b b ! nat i ! nat j = 1 then 1 else 0) + (if v = 1 then 1 else 0)"
proof -
  have i: "nat i < length (board_b b)" and j: "nat j < length (board_b b ! nat i)"
    using assms by (auto simp: wf_board_def in_range_def)
  show ?thesis
    unfolding occupied_def put_def
    by (simp add: sum_list_map_update [OF i] count_list_update [OF j])
qed

lemma nth_put:
  assumes "wf_board b" "in_range b i" "in_range b j" "in_range b i'" "in_range b j'"
  shows "board_b (put b i j v) ! nat i' ! nat j'
           = (if i' = i \<and> j' = j then v else board_b b ! nat i' ! nat j')"
proof -
  have i: "nat i < length (board_b b)" and j: "nat j < length (board_b b ! nat i)"
    and i': "nat i' < length (board_b b)"
    using assms by (auto simp: wf_board_def in_range_def)
  have eq: "nat i' = nat i \<longleftrightarrow> i' = i" "nat j' = nat j \<longleftrightarrow> j' = j"
    using assms by (auto simp: in_range_def)
  show ?thesis
    using i j i' eq by (auto simp: put_def nth_list_update)
qed

lemma occupied_init: "occupied (init_board n) = 0"
proof -
  have "count_list (replicate n (0::int)) 1 = 0"
    by (simp add: count_list_0_iff)
  then have "sum_list (map (\<lambda>r. int (count_list r 1)) (replicate m (replicate n (0::int)))) = 0" for m
    by (induction m) simp_all
  then show ?thesis by (simp add: occupied_def init_board_def)
qed

lemma wf_init: "wf_board (init_board n)"
  by (simp add: wf_board_def init_board_def)

lemma reset_init: "reset b new_size = init_board (case new_size of None \<Rightarrow> size_b b | Some m \<Rightarrow> m)"
  by (simp add: reset_def init_board_def Let_def)

lemma np_index_Some: "np_index n r = Some i \<Longrightarrow> i < n"
  by (auto simp: np_index_def split: if_splits)

lemma setitem_as_put:
  assumes wf: "wf_board b" and s: "setitem b r c v = Some b'"
  shows "\<exists>i j. in_range b i \<and> in_range b j \<and> getitem b r c = Some (board_b b ! nat i ! nat j)
               \<and> b' = put b i j v"
proof -
  obtain i where i: "np_index (length (board_b b)) r = Some i"
    using s by (cases "np_index (length (board_b b)) r") (simp_all add: setitem_def)
  obtain j where j: "np_index (length (board_b b ! i)) c = Some j"
    using s i by (cases "np_index (length (board_b b ! i)) c") (simp_all add: setitem_def)
  have il: "i < size_b b" using np_index_Some [OF i] wf by (simp add: wf_board_def)
  have jl: "j < size_b b" using np_index_Some [OF j] wf_row_length [OF wf il] by simp
  have "b' = put b (int i) (int j) v" using s i j by (simp add: setitem_def put_def)
  moreover have "getitem b r c = Some (board_b b ! nat (int i) ! nat (int j))"
    using i j by (simp add: getitem_def)
  ultimately show ?thesis
    using il jl by (intro exI [of _ "int i"] exI [of _ "int j"]) (simp add: in_range_def)
qed

lemma is_safe_True_cell:
  assumes "is_safe b row col = Some True"
  shows "\<exists>x. getitem b row col = Some x \<and> x \<noteq> 1"
  using assms
  by (cases "getitem b row col") (auto simp: is_safe_def Let_def split: if_splits)

lemma place_queen_keeps_count:
  assumes wf: "wf_board b" and p: "place_queen b row col = Some (ok, b')"
  shows "wf_board b' \<and> size_b b' = size_b b
         \<and> queens_left b' + occupied b' = queens_left b + occupied b"
proof (cases "is_safe b row col")
  case None
  then show ?thesis using p by (simp add: place_queen_def)
next
  case (Some s)
  show ?thesis
  proof (cases s)
    case False
    then show ?thesis using p Some wf by (simp add: place_queen_def)
  next
    case True
    obtain b1 where b1: "setitem b row col 1 = Some b1"
      and b': "b' = b1\<lparr>queens_left := queens_left b1 - 1\<rparr>"
      using p Some True by (cases "setitem b row col 1") (auto simp: place_queen_def)
    obtain i j where rg: "in_range b i" "in_range b j"
      and g: "getitem b row col = Some (board_b b ! nat i ! nat j)"
      and put: "b1 = put b i j 1"
      using setitem_as_put [OF wf b1] by blast
    have "board_b b ! nat i ! nat j \<noteq> 1"
      using is_safe_True_cell [of b row col] Some True g by simp
    then have "occupied b1 = occupied b + 1"
      unfolding put using occupied_put [OF wf rg, of 1] by simp
    moreover have "wf_board b1" unfolding put by (rule wf_put [OF wf])
    ultimately show ?thesis
      unfolding b' by (simp add: occupied_def put wf_board_def)
  qed
qed

lemma queen_at_queens_left [simp]: "queen_at (b\<lparr>queens_left := q\<rparr>) i j = queen_at b i j"
  by (simp add: queen_at_def)

lemma occupied_queens_left [simp]: "occupied (b\<lparr>queens_left := q\<rparr>) = occupied b"
  by (simp add: occupied_def)

lemma stack_ok_queens_left [simp]: "stack_ok (b\<lparr>queens_left := q\<rparr>) st = stack_ok b st"
  by (simp add: stack_ok_def)

lemma stack_push:
  assumes wf: "wf_board b" and rg: "in_range b i" "in_range b j"
    and free: "board_b b ! nat i ! nat j \<noteq> 1" and st: "stack_ok b st"
  shows "stack_ok (put b i j 1) ((i, j) # st) \<and> occupied (put b i j 1) = occupied b + 1"
proof -
  have new: "(i, j) \<notin> set st"
    using st free by (auto simp: stack_ok_def queen_at_def)
  have "queen_at (put b i j 1) (fst p) (snd p)" if p: "p \<in> set ((i, j) # st)" for p
  proof -
    have prg: "in_range b (fst p)" "in_range b (snd p)"
      using p st rg by (auto simp: stack_ok_def)
    show ?thesis
      using nth_put [OF wf rg prg, of 1] p st by (auto simp: queen_at_def stack_ok_def)
  qed
  then have "stack_ok (put b i j 1) ((i, j) # st)"
    using new st rg by (auto simp: stack_ok_def)
  then show ?thesis
    using occupied_put [OF wf rg, of 1] free by simp
qed

lemma stack_pop:
  assumes wf: "wf_board b" and st: "stack_ok b ((i, j) # st)"
  shows "stack_ok (put b i j 0) st \<and> occupied (put b i j 0) = occupied b - 1
         \<and> in_range b i \<and> in_range b j"
proof -
  have rg: "in_range b i" "in_range b j" and q: "board_b b ! nat i ! nat j = 1"
    and new: "(i, j) \<notin> set st"
    using st by (auto simp: stack_ok_def queen_at_def)
  have "queen_at (put b i j 0) (fst p) (snd p)" if p: "p \<in> set st" for p
  proof -
    have prg: "in_range b (fst p)" "in_range b (snd p)"
      using p st by (auto simp: stack_ok_def)
    have "p \<noteq> (i, j)" using p new by auto
    then have "\<not> (fst p = i \<and> snd p = j)" by (cases p) simp
    then show ?thesis
      using nth_put [OF wf rg prg, of 0] p st by (auto simp: queen_at_def stack_ok_def)
  qed
  then have "stack_ok (put b i j 0) st"
    using st by (auto simp: stack_ok_def)
  then show ?thesis
    using occupied_put [OF wf rg, of 0] q rg by simp
qed

lemma pending_simps [simp]:
  "pending AlphaBeta st = 0" "pending Minimax st = int (length st)" "pending e [] = 0"
  by (simp_all add: pending_def split: engine.splits)

lemma reachable_inv: "reachable e b st \<Longrightarrow> reach_inv e b st"
proof (induction rule: reachable.induct)
  case (fresh e n)
  show ?case
    by (simp add: reach_inv_def wf_init occupied_init stack_ok_def) (simp add: init_board_def)
next
  case (after_reset e b new_size)
  show ?case
    unfolding reset_init
    by (simp add: reach_inv_def wf_init occupied_init stack_ok_def) (simp add: init_board_def)
next
  case (after_place e b row col ok b')
  then have wf: "wf_board b" and q: "queens_left b = int (size_b b) - occupied b"
    by (simp_all add: reach_inv_def)
  from place_queen_keeps_count [OF wf after_place.hyps(2)] q show ?case
    by (simp add: reach_inv_def stack_ok_def)
next
  case (alphabeta_move b st sp i j b')
  then have wf: "wf_board b" and st: "stack_ok b st"
    and q: "queens_left b = int (size_b b) - occupied b"
    by (simp_all add: reach_inv_def)
  have "(i, j) \<in> set (filter (free_cell b) (all_cells b))"
    using alphabeta_move.hyps(2,3) get_safe_positions_wf [OF wf] by simp
  then have rg: "in_range b i" "in_range b j" and z: "board_b b ! nat i ! nat j = 0"
    by (simp_all add: all_cells_in_range free_cell_def)
  have b': "b' = (put b i j 1)\<lparr>queens_left := queens_left b - 1\<rparr>"
    using alphabeta_move.hyps(4) make_move_wf [OF wf rg] by (simp add: moved_def placed_def)
  have "board_b b ! nat i ! nat j \<noteq> 1" using z by simp
  from stack_push [OF wf rg this st] q wf_put [OF wf, of i j 1] show ?case
    unfolding b' by (simp add: reach_inv_def)
next
  case (alphabeta_undo b i j st b')
  then have wf: "wf_board b" and st: "stack_ok b ((i, j) # st)"
    and q: "queens_left b = int (size_b b) - occupied b"
    by (simp_all add: reach_inv_def)
  note pop = stack_pop [OF wf st]
  have b': "b' = (put b i j 0)\<lparr>queens_left := queens_left b + 1\<rparr>"
    using alphabeta_undo.hyps(2) setitem_wf [OF wf, of i j 0] pop
    by (simp add: undo_move_def)
  from pop q wf_put [OF wf, of i j 0] show ?case
    unfolding b' by (simp add: reach_inv_def)
next
  case (minimax_move b st i j b')
  then have wf: "wf_board b" and st: "stack_ok b st"
    and q: "queens_left b = int (size_b b) - occupied b + int (length st)"
    by (simp_all add: reach_inv_def)
  have rg: "in_range b i" "in_range b j"
    using minimax_move.hyps(2) by (simp_all add: all_cells_in_range)
  have "free_cell b (i, j)"
    using minimax_move.hyps(3) empty_and_safe_wf [OF wf rg] by simp
  then have z: "board_b b ! nat i ! nat j \<noteq> 1" by (simp add: free_cell_def)
  have b': "b' = put b i j 1"
    using minimax_move.hyps(4) setitem_wf [OF wf rg, of 1] by simp
  from stack_push [OF wf rg z st] q wf_put [OF wf, of i j 1] show ?case
    unfolding b' by (simp add: reach_inv_def)
next
  case (minimax_undo b i j st b')
  then have wf: "wf_board b" and st: "stack_ok b ((i, j) # st)"
    and q: "queens_left b = int (size_b b) - occupied b + int (length ((i, j) # st))"
    by (simp_all add: reach_inv_def)
  note pop = stack_pop [OF wf st]
  have b': "b' = put b i j 0"
    using minimax_undo.hyps(2) setitem_wf [OF wf, of i j 0] pop by simp
  from pop q wf_put [OF wf, of i j 0] show ?case
    unfolding b' by (simp add: reach_inv_def)
qed

lemma reachable_corner4: "reachable e corner4 []"
proof -
  have "place_queen (init_board 4) 0 0 = Some (True, corner4)" by code_simp
  then show ?thesis using reachable.fresh [of e 4] by (rule reachable.after_place [rotated])
qed

lemma reachable_first_move4: "reachable Minimax first_move4 [(0, 0)]"
proof -
  have c: "(0, 0) \<in> set (all_cells (init_board 4))" by code_simp
  have s: "empty_and_safe (init_board 4) (0, 0) = Some True" by code_simp
  have m: "setitem (init_board 4) 0 0 1 = Some first_move4" by code_simp
  show ?thesis
    using reachable.minimax_move [OF reachable.fresh c s m] .
qed

lemma occupied_first_move4: "occupied first_move4 = 1"
  by (simp add: occupied_def first_move4_def)

text \<open>
  Claim C4, as stated, fails inside a search of the minimax engine.  On a fresh 4-by-4
  board \<^verbatim>\<open>get_best_move\<close> of minimax/minimax.py first sets the cell \<open>(0, 0)\<close> and calls
  \<^verbatim>\<open>minimax\<close>: one cell is occupied and \<^verbatim>\<open>queens_left\<close> is still 4.
\<close>

theorem minimax_move_leaves_queens_left:
  "reachable Minimax first_move4 [(0, 0)]
   \<and> queens_left first_move4 = 4 \<and> int (size_b first_move4) - occupied first_move4 = 3
   \<and> queens_left first_move4 \<noteq> int (size_b first_move4) - occupied first_move4"
  using reachable_first_move4 occupied_first_move4 by (simp add: first_move4_def)

text \<open>
  Claim C4, amended.  In every state reachable from a fresh or reset board through
  \<^verbatim>\<open>place_queen\<close>, \<^verbatim>\<open>reset\<close> and the moves and undos of the alpha-beta engine,
  \<^verbatim>\<open>queens_left\<close> equals \<^verbatim>\<open>size\<close> minus the number of occupied cells.  The moves of the
  minimax engine write the cell only: inside its search \<^verbatim>\<open>queens_left\<close> exceeds that
  number by the number of moves not yet undone, and the equality holds again once
  every move is undone.
\<close>

theorem queens_left_tracks_occupancy:
  "(reachable AlphaBeta b st \<longrightarrow> queens_left b = int (size_b b) - occupied b)
   \<and> (reachable Minimax b st \<longrightarrow>
        queens_left b = int (size_b b) - occupied b + int (length st))
   \<and> (reachable Minimax b [] \<longrightarrow> queens_left b = int (size_b b) - occupied b)"
  using reachable_inv [of AlphaBeta b st] reachable_inv [of Minimax b st]
    reachable_inv [of Minimax b "[]"]
  by (simp add: reach_inv_def)

theorem queens_left_tracks_occupancy_witness:
  "reachable AlphaBeta corner4 [] \<and> queens_left corner4 = 3
   \<and> int (size_b corner4) - occupied corner4 = 3
   \<and> reachable Minimax first_move4 [(0, 0)]
   \<and> queens_left first_move4 = int (size_b first_move4) - occupied first_move4 + 1
   \<and> reachable Minimax corner4 [] \<and> occupied corner4 = 1"
proof -
  have q: "queens_left corner4 = 3" "size_b corner4 = 4" by (simp_all add: corner4_def)
  show ?thesis
    using queens_left_tracks_occupancy [of corner4 "[]"]
      queens_left_tracks_occupancy [of first_move4 "[(0, 0)]"]
      reachable_corner4 [of AlphaBeta] reachable_corner4 [of Minimax] reachable_first_move4 q
    by simp
qed

end
